theory Spec2Isabelle
  imports Complex_Main
begin

section \<open>The object store of \<open>engine.py\<close>\<close>

text \<open>
  Every \<open>Value\<close> object lives in a store, a list of objects in creation order; a
  reference to an object is its index. Creating an object appends it, so a reference is
  never reused and an object only refers to objects created before it.

  Python's \<open>int\<close> and \<open>float\<close> are both read as \<open>real\<close>: rounding, overflow and
  the special values of IEEE arithmetic are outside this model.
\<close>

type_synonym ref = nat

text \<open>
  The exceptions of Python that the engine can raise: the \<open>AssertionError\<close> of
  \<open>__pow__\<close>, the \<open>ZeroDivisionError\<close> of a power of zero and the
  \<open>RecursionError\<close> of a recursion deeper than the interpreter allows.
  \<open>ComplexPower\<close> is no exception of Python: it marks the point where a power yields a
  complex number and the run leaves the real numbers (see \<open>py_pow\<close> below).
\<close>

datatype error = AssertionError | ZeroDivisionError | RecursionError | ComplexPower

text \<open>
  The closure stored in \<open>_backward\<close>, with the variables it captures:
  \<open>self\<close>, \<open>other\<close> and \<open>out\<close>. \<open>NoBackward\<close> is \<open>lambda: None\<close>.
\<close>

datatype backward_fn =
    NoBackward
  | AddBackward ref ref ref
  | MulBackward ref ref ref
  | PowBackward ref real ref
  | ReluBackward ref ref

text \<open>
  The string \<open>_op\<close>: \<open>''\<close>, \<open>'+'\<close>, \<open>'*'\<close>, \<open>f'**{other}'\<close> (kept as the
  exponent it prints) and \<open>'ReLU'\<close>.
\<close>

datatype op_label = OpNone | OpAdd | OpMul | OpPow real | OpReLU

text \<open>
  The field \<open>_prev\<close> is a Python set of objects. It is kept as the list of its elements
  in the order in which the set iterates; that list has no duplicates.
\<close>

record Value =
  data :: real
  grad :: real
  backward_fn :: backward_fn
  prev :: "ref list"
  op :: op_label

type_synonym heap = "Value list"

text \<open>
  What an operator may receive as \<open>other\<close>: a number or a \<open>Value\<close> object.
\<close>

datatype operand = Num real | Ref ref

subsection \<open>Python sets of objects\<close>

text \<open>
  The order in which a set of objects iterates depends on the objects' hashes, that is
  on their addresses, which the source does not fix. The parameter \<open>ho\<close> stands for that
  order: \<open>ho y c\<close> says that \<open>c\<close>, added to a set that holds \<open>y\<close>, comes before \<open>y\<close>.
  The operators build sets of at most two objects, and for two objects both orders
  arise, one for each value of \<open>ho\<close> on them.
\<close>

type_synonym hash_order = "ref \<Rightarrow> ref \<Rightarrow> bool"

fun set_place :: "hash_order \<Rightarrow> ref \<Rightarrow> ref list \<Rightarrow> ref list" where
  "set_place ho c [] = [c]"
| "set_place ho c (y # ys) = (if ho y c then c # y # ys else y # set_place ho c ys)"

definition set_add :: "hash_order \<Rightarrow> ref list \<Rightarrow> ref \<Rightarrow> ref list" where
  "set_add ho acc c = (if c \<in> set acc then acc else set_place ho c acc)"

definition py_set :: "hash_order \<Rightarrow> ref list \<Rightarrow> ref list" where
  "py_set ho cs = foldl (set_add ho) [] cs"

subsection \<open>Construction\<close>

text \<open>\<open>Value.__init__(data, _children, _op)\<close>: the fields of a fresh object.\<close>

definition Value_init :: "hash_order \<Rightarrow> real \<Rightarrow> ref list \<Rightarrow> op_label \<Rightarrow> Value" where
  "Value_init ho d children l =
     \<lparr>data = d, grad = 0, backward_fn = NoBackward, prev = py_set ho children, op = l\<rparr>"

text \<open>Allocation: the new object gets the next free reference.\<close>

definition new :: "heap \<Rightarrow> Value \<Rightarrow> ref \<times> heap" where
  "new h v = (length h, h @ [v])"

text \<open>The assignment \<open>out._backward = _backward\<close>.\<close>

definition set_backward :: "heap \<Rightarrow> ref \<Rightarrow> backward_fn \<Rightarrow> heap" where
  "set_backward h r f = h[r := (h ! r)\<lparr>backward_fn := f\<rparr>]"

text \<open>\<open>Value(value)\<close> with the default arguments.\<close>

definition leaf :: "hash_order \<Rightarrow> heap \<Rightarrow> real \<Rightarrow> ref \<times> heap" where
  "leaf ho h d = new h (Value_init ho d [] OpNone)"

text \<open>\<open>other = other if isinstance(other, Value) else Value(other)\<close>\<close>

definition wrap :: "hash_order \<Rightarrow> heap \<Rightarrow> operand \<Rightarrow> ref \<times> heap" where
  "wrap ho h other = (case other of Ref r \<Rightarrow> (r, h) | Num c \<Rightarrow> leaf ho h c)"

text \<open>\<open>Value.__add__\<close>\<close>

definition add :: "hash_order \<Rightarrow> heap \<Rightarrow> ref \<Rightarrow> operand \<Rightarrow> ref \<times> heap" where
  "add ho h self other =
     (case wrap ho h other of (other', h1) \<Rightarrow>
      case new h1 (Value_init ho (data (h1 ! self) + data (h1 ! other')) [self, other'] OpAdd)
      of (out, h2) \<Rightarrow> (out, set_backward h2 out (AddBackward self other' out)))"

text \<open>\<open>Value.__mul__\<close>\<close>

definition mul :: "hash_order \<Rightarrow> heap \<Rightarrow> ref \<Rightarrow> operand \<Rightarrow> ref \<times> heap" where
  "mul ho h self other =
     (case wrap ho h other of (other', h1) \<Rightarrow>
      case new h1 (Value_init ho (data (h1 ! self) * data (h1 ! other')) [self, other'] OpMul)
      of (out, h2) \<Rightarrow> (out, set_backward h2 out (MulBackward self other' out)))"

text \<open>
  Python's \<open>x ** y\<close> on numbers, read on the reals. A zero base with a negative exponent
  raises \<open>ZeroDivisionError\<close>. A negative base with an exponent that is not a whole number
  raises nothing in Python: the result is a complex number, \<open>__pow__\<close> creates a
  \<open>Value\<close> that holds it, and the gradients that pass through that object are complex.
  The fields \<open>data\<close> and \<open>grad\<close> are real here, so such a run is followed up to that
  power only, and \<open>ComplexPower\<close> is returned in the place of the complex number. No
  statement below takes it for an exception of Python. The \<open>OverflowError\<close> of a float
  power too large for a float is outside the real numbers in the same way and never arises
  here.
\<close>

definition py_pow :: "real \<Rightarrow> real \<Rightarrow> error + real" where
  "py_pow x y =
     (if y = of_int \<lfloor>y\<rfloor> then
        (if x = 0 \<and> y < 0 then Inl ZeroDivisionError else Inr (power_int x \<lfloor>y\<rfloor>))
      else if x = 0 then (if y < 0 then Inl ZeroDivisionError else Inr 0)
      else if x < 0 then Inl ComplexPower
      else Inr (x powr y))"

text \<open>
  \<open>Value.__pow__\<close>: the assertion \<open>isinstance(other, (int, float))\<close> comes first, before
  anything is computed or created.
\<close>

definition pow :: "hash_order \<Rightarrow> heap \<Rightarrow> ref \<Rightarrow> operand \<Rightarrow> (error + ref) \<times> heap" where
  "pow ho h self other =
     (case other of
        Ref r \<Rightarrow> (Inl AssertionError, h)
      | Num n \<Rightarrow>
          (case py_pow (data (h ! self)) n of
             Inl e \<Rightarrow> (Inl e, h)
           | Inr d \<Rightarrow>
               (case new h (Value_init ho d [self] (OpPow n)) of (out, h1) \<Rightarrow>
                  (Inr out, set_backward h1 out (PowBackward self n out)))))"

text \<open>\<open>Value.relu\<close>\<close>

definition relu :: "hash_order \<Rightarrow> heap \<Rightarrow> ref \<Rightarrow> ref \<times> heap" where
  "relu ho h self =
     (case new h (Value_init ho (if data (h ! self) < 0 then 0 else data (h ! self)) [self] OpReLU)
      of (out, h1) \<Rightarrow> (out, set_backward h1 out (ReluBackward self out)))"

subsection \<open>The backward closures\<close>

text \<open>\<open>x.grad += d\<close> and \<open>x.grad = g\<close>.\<close>

definition grad_add :: "heap \<Rightarrow> ref \<Rightarrow> real \<Rightarrow> heap" where
  "grad_add h r d = h[r := (h ! r)\<lparr>grad := grad (h ! r) + d\<rparr>]"

definition grad_set :: "heap \<Rightarrow> ref \<Rightarrow> real \<Rightarrow> heap" where
  "grad_set h r g = h[r := (h ! r)\<lparr>grad := g\<rparr>]"

text \<open>
  Calling a closure. Each statement reads the store left by the one before it.
  \<open>(out.data > 0) * out.grad\<close> multiplies by the truth value, 1 or 0.
\<close>

fun call_backward :: "heap \<Rightarrow> backward_fn \<Rightarrow> error + heap" where
  "call_backward h NoBackward = Inr h"
| "call_backward h (AddBackward self other out) =
     (let h1 = grad_add h self (grad (h ! out));
          h2 = grad_add h1 other (grad (h1 ! out))
      in Inr h2)"
| "call_backward h (MulBackward self other out) =
     (let h1 = grad_add h self (data (h ! other) * grad (h ! out));
          h2 = grad_add h1 other (data (h1 ! self) * grad (h1 ! out))
      in Inr h2)"
| "call_backward h (PowBackward self other out) =
     (case py_pow (data (h ! self)) (other - 1) of
        Inl e \<Rightarrow> Inl e
      | Inr p \<Rightarrow> Inr (grad_add h self ((other * p) * grad (h ! out))))"
| "call_backward h (ReluBackward self out) =
     Inr (grad_add h self ((if data (h ! out) > 0 then 1 else 0) * grad (h ! out)))"

subsection \<open>Topological order and the backward pass\<close>

text \<open>
  \<open>v._prev\<close> as the loop of \<open>build_topo\<close> reads it. A reference is always to an
  object of the store; for an index beyond the store, which no Python reference is, the
  list is empty. \<open>refs_of\<close> holds the objects a traversal can meet: those of the store
  and those named in a \<open>_prev\<close>.
\<close>

definition children :: "heap \<Rightarrow> ref \<Rightarrow> ref list" where
  "children h v = (if v < length h then prev (h ! v) else [])"

definition refs_of :: "heap \<Rightarrow> ref set" where
  "refs_of h = {..<length h} \<union> (\<Union>n \<in> set h. set (prev n))"

text \<open>
  \<open>build_topo\<close>, the local function of \<open>Value.backward\<close>, with the two variables it
  closes over, \<open>visited\<close> and \<open>topo\<close>, passed in and returned. \<open>build_topo_loop\<close> is
  its \<open>for child in v._prev\<close>. This is the recursion on a stack that never runs out;
  \<open>build_topo_limit\<close> below is the same recursion under Python's recursion limit, and
  it returns what this one returns whenever it returns (lemma \<open>build_topo_limit_Inr\<close>).
\<close>

function build_topo :: "heap \<Rightarrow> ref \<Rightarrow> ref set \<times> ref list \<Rightarrow> ref set \<times> ref list"
  and build_topo_loop :: "heap \<Rightarrow> ref list \<Rightarrow> ref set \<times> ref list \<Rightarrow> ref set \<times> ref list"
where
  "build_topo h v (visited, topo) =
     (if v \<notin> visited then
        (case build_topo_loop h (children h v) (insert v visited, topo) of
           (visited', topo') \<Rightarrow> (visited', topo' @ [v]))
      else (visited, topo))"
| "build_topo_loop h [] st = st"
| "build_topo_loop h (child # rest) st = build_topo_loop h rest (build_topo h child st)"
  by pat_completeness auto

text \<open>
  \<open>for v in reversed(topo): v._backward()\<close>; an exception raised by a closure ends
  the loop, and the store stays as the closures called before have left it: a closure
  that raises does so while it computes the right-hand side of its \<open>+=\<close>, before it
  writes.
\<close>

fun run_backward :: "heap \<Rightarrow> ref list \<Rightarrow> error \<times> heap + heap" where
  "run_backward h [] = Inr h"
| "run_backward h (v # vs) =
     (case call_backward h (backward_fn (h ! v)) of
        Inl e \<Rightarrow> Inl (e, h)
      | Inr h' \<Rightarrow> run_backward h' vs)"

text \<open>The list \<open>topo\<close> that \<open>Value.backward\<close> builds for \<open>self\<close>.\<close>

definition topo_of :: "heap \<Rightarrow> ref \<Rightarrow> ref list" where
  "topo_of h self = snd (build_topo h self ({}, []))"

text \<open>
  \<open>Value.backward\<close>, on a stack that never runs out. The result is the store after
  the call, or the exception raised and the store at that moment. \<open>backward_limit\<close>
  below is the method under Python's recursion limit: it raises \<open>RecursionError\<close> or
  is this function (lemma \<open>backward_limit_cases\<close>).
\<close>

definition backward :: "heap \<Rightarrow> ref \<Rightarrow> error \<times> heap + heap" where
  "backward h self =
     (let topo = topo_of h self;
          h1 = grad_set h self 1
      in run_backward h1 (rev topo))"

subsection \<open>The recursion limit\<close>

text \<open>
  \<open>build_topo\<close> calls itself once for every element of \<open>v._prev\<close>, visited or not,
  and Python raises \<open>RecursionError\<close> when a call would make the stack deeper than the
  interpreter's recursion limit. \<open>frames\<close> is the number of nested calls of
  \<open>build_topo\<close> that the interpreter still allows: a call with no frame left raises,
  and a call that is allowed runs its loop with one frame less. The source catches nothing,
  so the exception ends the traversal and \<open>backward\<close> with it.
\<close>

fun build_topo_limit ::
    "nat \<Rightarrow> heap \<Rightarrow> ref \<Rightarrow> ref set \<times> ref list \<Rightarrow> error + ref set \<times> ref list"
  and build_topo_loop_limit ::
    "nat \<Rightarrow> heap \<Rightarrow> ref list \<Rightarrow> ref set \<times> ref list \<Rightarrow> error + ref set \<times> ref list"
where
  "build_topo_limit 0 h v st = Inl RecursionError"
| "build_topo_limit (Suc frames) h v (visited, topo) =
     (if v \<notin> visited then
        (case build_topo_loop_limit frames h (children h v) (insert v visited, topo) of
           Inl e \<Rightarrow> Inl e
         | Inr (visited', topo') \<Rightarrow> Inr (visited', topo' @ [v]))
      else Inr (visited, topo))"
| "build_topo_loop_limit frames h [] st = Inr st"
| "build_topo_loop_limit frames h (child # rest) st =
     (case build_topo_limit frames h child st of
        Inl e \<Rightarrow> Inl e
      | Inr st' \<Rightarrow> build_topo_loop_limit frames h rest st')"

text \<open>
  The list \<open>topo\<close> that \<open>Value.backward\<close> builds for \<open>self\<close> when the interpreter
  allows \<open>limit\<close> nested calls of \<open>build_topo\<close> at that moment.
\<close>

definition topo_limit :: "nat \<Rightarrow> heap \<Rightarrow> ref \<Rightarrow> error + ref list" where
  "topo_limit limit h self =
     (case build_topo_limit limit h self ({}, []) of
        Inl e \<Rightarrow> Inl e
      | Inr (visited, topo) \<Rightarrow> Inr topo)"

text \<open>
  \<open>Value.backward\<close> under the recursion limit. \<open>build_topo(self)\<close> comes first: when
  it raises, \<open>self.grad = 1\<close> has not been reached and the store is untouched.
\<close>

definition backward_limit :: "nat \<Rightarrow> heap \<Rightarrow> ref \<Rightarrow> error \<times> heap + heap" where
  "backward_limit limit h self =
     (case topo_limit limit h self of
        Inl e \<Rightarrow> Inl (e, h)
      | Inr topo \<Rightarrow> run_backward (grad_set h self 1) (rev topo))"

subsection \<open>\<open>Module.zero_grad\<close> of \<open>nn.py\<close>\<close>

text \<open>
  \<open>for p in self.parameters(): p.grad = 0\<close>, where \<open>params\<close> is the list that
  \<open>self.parameters()\<close> returns: \<open>Value\<close> objects of the store.
\<close>

definition zero_grad :: "heap \<Rightarrow> ref list \<Rightarrow> heap" where
  "zero_grad h params = fold (\<lambda>p h'. grad_set h' p 0) params h"

subsection \<open>The other operators\<close>

text \<open>\<open>__neg__\<close>: \<open>self * -1\<close>\<close>

definition neg :: "hash_order \<Rightarrow> heap \<Rightarrow> ref \<Rightarrow> ref \<times> heap" where
  "neg ho h self = mul ho h self (Num (- 1))"


text \<open>
  \<open>-other\<close> in \<open>__sub__\<close>: a number is negated as a number, a \<open>Value\<close> by
  \<open>__neg__\<close>.
\<close>

definition neg_operand :: "hash_order \<Rightarrow> heap \<Rightarrow> operand \<Rightarrow> operand \<times> heap" where
  "neg_operand ho h other =
     (case other of
        Num c \<Rightarrow> (Num (- c), h)
      | Ref r \<Rightarrow> (case neg ho h r of (n, h1) \<Rightarrow> (Ref n, h1)))"

text \<open>\<open>__sub__\<close>: \<open>self + (-other)\<close>\<close>

definition sub :: "hash_order \<Rightarrow> heap \<Rightarrow> ref \<Rightarrow> operand \<Rightarrow> ref \<times> heap" where
  "sub ho h self other =
     (case neg_operand ho h other of (m, h1) \<Rightarrow> add ho h1 self m)"


text \<open>\<open>__rmul__\<close>: \<open>self * other\<close>\<close>

definition rmul :: "hash_order \<Rightarrow> heap \<Rightarrow> ref \<Rightarrow> operand \<Rightarrow> ref \<times> heap" where
  "rmul ho h self other = mul ho h self other"

text \<open>
  \<open>other**-1\<close> in \<open>__truediv__\<close>: the power of a number is a number, that of a
  \<open>Value\<close> is \<open>__pow__\<close>.
\<close>

definition inv_operand :: "hash_order \<Rightarrow> heap \<Rightarrow> operand \<Rightarrow> (error + operand) \<times> heap" where
  "inv_operand ho h other =
     (case other of
        Num c \<Rightarrow> (case py_pow c (- 1) of Inl e \<Rightarrow> (Inl e, h) | Inr d \<Rightarrow> (Inr (Num d), h))
      | Ref r \<Rightarrow> (case pow ho h r (Num (- 1)) of
                   (Inl e, h1) \<Rightarrow> (Inl e, h1)
                 | (Inr p, h1) \<Rightarrow> (Inr (Ref p), h1)))"

text \<open>\<open>__truediv__\<close>: \<open>self * other**-1\<close>\<close>

definition truediv :: "hash_order \<Rightarrow> heap \<Rightarrow> ref \<Rightarrow> operand \<Rightarrow> (error + ref) \<times> heap" where
  "truediv ho h self other =
     (case inv_operand ho h other of
        (Inl e, h1) \<Rightarrow> (Inl e, h1)
      | (Inr m, h1) \<Rightarrow> (case mul ho h1 self m of (out, h2) \<Rightarrow> (Inr out, h2)))"


subsection \<open>The derived operations as the specification words them\<close>

text \<open>
  The specification composes them from the primitives, on nodes:
  negation is \<open>mul(a, leaf(-1))\<close>, subtraction is \<open>add(a, negate(b))\<close> and division is
  \<open>mul(a, pow(b, -1))\<close>. An argument is evaluated before the call it is passed to.
\<close>

definition spec_negate :: "hash_order \<Rightarrow> heap \<Rightarrow> ref \<Rightarrow> ref \<times> heap" where
  "spec_negate ho h a = (case leaf ho h (- 1) of (m, h1) \<Rightarrow> mul ho h1 a (Ref m))"

definition spec_sub :: "hash_order \<Rightarrow> heap \<Rightarrow> ref \<Rightarrow> ref \<Rightarrow> ref \<times> heap" where
  "spec_sub ho h a b = (case spec_negate ho h b of (n, h1) \<Rightarrow> add ho h1 a (Ref n))"

definition spec_div :: "hash_order \<Rightarrow> heap \<Rightarrow> ref \<Rightarrow> ref \<Rightarrow> (error + ref) \<times> heap" where
  "spec_div ho h a b =
     (case pow ho h b (Num (- 1)) of
        (Inl e, h1) \<Rightarrow> (Inl e, h1)
      | (Inr p, h1) \<Rightarrow> (case mul ho h1 a (Ref p) of (out, h2) \<Rightarrow> (Inr out, h2)))"

section \<open>Notions used to state and prove the properties\<close>

subsection \<open>Well-formed stores\<close>

text \<open>The objects a closure captures as \<open>self\<close> and \<open>other\<close>, and its \<open>out\<close>.\<close>

fun operands :: "backward_fn \<Rightarrow> ref list" where
  "operands NoBackward = []"
| "operands (AddBackward self other out) = [self, other]"
| "operands (MulBackward self other out) = [self, other]"
| "operands (PowBackward self other out) = [self]"
| "operands (ReluBackward self out) = [self]"

fun closure_of :: "ref \<Rightarrow> backward_fn \<Rightarrow> bool" where
  "closure_of i NoBackward = True"
| "closure_of i (AddBackward self other out) = (out = i)"
| "closure_of i (MulBackward self other out) = (out = i)"
| "closure_of i (PowBackward self other out) = (out = i)"
| "closure_of i (ReluBackward self out) = (out = i)"

text \<open>
  The object at reference \<open>i\<close> is well formed when \<open>_prev\<close> is a set of objects created
  before it, holding exactly the operands its closure captures, and the closure's
  \<open>out\<close> is the object itself. Every operator of the engine creates such objects.
\<close>

definition wf_value :: "ref \<Rightarrow> Value \<Rightarrow> bool" where
  "wf_value i n =
     (distinct (prev n) \<and> list_all (\<lambda>c. c < i) (prev n) \<and>
      set (prev n) = set (operands (backward_fn n)) \<and> closure_of i (backward_fn n))"

fun wf_from :: "ref \<Rightarrow> heap \<Rightarrow> bool" where
  "wf_from i [] = True"
| "wf_from i (n # ns) = (wf_value i n \<and> wf_from (Suc i) ns)"

definition wf_heap :: "heap \<Rightarrow> bool" where
  "wf_heap h = wf_from 0 h"

text \<open>The objects that \<open>root\<close> reaches through \<open>_prev\<close>.\<close>

inductive_set reachable :: "heap \<Rightarrow> ref \<Rightarrow> ref set" for h :: heap and root :: ref where
  root: "root \<in> reachable h root"
| child: "v \<in> reachable h root \<Longrightarrow> c \<in> set (children h v) \<Longrightarrow> c \<in> reachable h root"

subsection \<open>The effect of a closure on the gradients\<close>

text \<open>
  A closure adds to the \<open>grad\<close> of \<open>u\<close> the \<open>grad\<close> of its \<open>out\<close> times a factor that
  depends on \<open>data\<close> only; \<open>closure_ok\<close> says that computing the factor raises nothing.
\<close>

fun closure_weight :: "heap \<Rightarrow> backward_fn \<Rightarrow> ref \<Rightarrow> real" where
  "closure_weight h NoBackward u = 0"
| "closure_weight h (AddBackward self other out) u =
     (if u = self then 1 else 0) + (if u = other then 1 else 0)"
| "closure_weight h (MulBackward self other out) u =
     (if u = self then data (h ! other) else 0) + (if u = other then data (h ! self) else 0)"
| "closure_weight h (PowBackward self other out) u =
     (if u = self then (case py_pow (data (h ! self)) (other - 1) of
                          Inl e \<Rightarrow> 0 | Inr p \<Rightarrow> other * p)
      else 0)"
| "closure_weight h (ReluBackward self out) u =
     (if u = self then (if data (h ! out) > 0 then 1 else 0) else 0)"

fun closure_ok :: "heap \<Rightarrow> backward_fn \<Rightarrow> bool" where
  "closure_ok h (PowBackward self other out) =
     (case py_pow (data (h ! self)) (other - 1) of Inl e \<Rightarrow> False | Inr p \<Rightarrow> True)"
| "closure_ok h f = True"

definition weight :: "heap \<Rightarrow> ref \<Rightarrow> ref \<Rightarrow> real" where
  "weight h v u = closure_weight h (backward_fn (h ! v)) u"

text \<open>The store \<open>h\<close> with the gradients \<open>g\<close>, and one closure call seen on the gradients.\<close>

definition with_grads :: "heap \<Rightarrow> (ref \<Rightarrow> real) \<Rightarrow> heap" where
  "with_grads h g = map (\<lambda>i. (h ! i)\<lparr>grad := g i\<rparr>) [0..<length h]"

definition grad_step :: "heap \<Rightarrow> ref \<Rightarrow> (ref \<Rightarrow> real) \<Rightarrow> (ref \<Rightarrow> real)" where
  "grad_step h v g = (\<lambda>u. g u + weight h v u * g v)"

text \<open>
  A list in which no object comes before an object that has it in \<open>_prev\<close> later in
  the list: every consumer is met before its operands.
\<close>

fun consumers_first :: "heap \<Rightarrow> ref list \<Rightarrow> bool" where
  "consumers_first h [] = True"
| "consumers_first h (v # vs) = (list_all (\<lambda>u. v \<notin> set (children h u)) vs \<and> consumers_first h vs)"

text \<open>A hash order, for examples: a new element goes after the ones in the set.\<close>

definition insertion_order :: hash_order where
  "insertion_order y c = False"

subsection \<open>The depth of a graph\<close>

text \<open>
  The longest chain of operands below \<open>v\<close>, counted in edges and followed for at most
  \<open>k\<close> edges; \<open>chain_heights\<close> is the same for the objects of a \<open>_prev\<close>, one
  edge further. In a well-formed store an operand has a smaller reference than its
  consumer, so no chain below \<open>v\<close> has more than \<open>v\<close> edges.
\<close>

fun chain_height :: "nat \<Rightarrow> heap \<Rightarrow> ref \<Rightarrow> nat"
  and chain_heights :: "nat \<Rightarrow> heap \<Rightarrow> ref list \<Rightarrow> nat"
where
  "chain_height 0 h v = 0"
| "chain_height (Suc k) h v = chain_heights k h (children h v)"
| "chain_heights k h [] = 0"
| "chain_heights k h (c # cs) = max (Suc (chain_height k h c)) (chain_heights k h cs)"

definition height :: "heap \<Rightarrow> ref \<Rightarrow> nat" where
  "height h v = chain_height v h v"


subsection \<open>The traversal\<close>

text \<open>
  The measure: how many objects (of the store, or still to be looked at) are not yet
  in \<open>visited\<close>; every call that recurses puts one more there.
\<close>

definition unvisited :: "heap \<Rightarrow> ref set \<Rightarrow> ref set \<Rightarrow> nat" where
  "unvisited h extra visited = card ((refs_of h \<union> extra) - visited)"

text \<open>
  What one call of \<open>build_topo\<close> appends to \<open>topo\<close>: objects not met before, each once,
  and each after everything in its \<open>_prev\<close> that was not met before the call.
\<close>

definition new_in_order :: "heap \<Rightarrow> ref set \<Rightarrow> ref list \<Rightarrow> bool" where
  "new_in_order h visited ns =
     (distinct ns \<and> set ns \<inter> visited = {} \<and>
      (\<forall>j<length ns. set (children h (ns ! j)) \<subseteq> visited \<union> set (take j ns)))"

subsection \<open>Stores that differ in the gradients only\<close>

definition only_grads_differ :: "heap \<Rightarrow> heap \<Rightarrow> bool" where
  "only_grads_differ h h' =
     (length h' = length h \<and>
      list_all (\<lambda>i. data (h' ! i) = data (h ! i) \<and> backward_fn (h' ! i) = backward_fn (h ! i) \<and>
                    prev (h' ! i) = prev (h ! i) \<and> op (h' ! i) = op (h ! i)) [0..<length h])"


subsection \<open>The stores the engine can be in\<close>

text \<open>
  Starting from the empty store, a program creates objects with the operators (the
  derived ones are compositions of these), runs \<open>backward\<close>, to its end or to an
  exception, and calls \<open>zero_grad\<close>.
\<close>

inductive built :: "hash_order \<Rightarrow> heap \<Rightarrow> bool" for ho :: hash_order where
  empty: "built ho []"
| leaf: "built ho h \<Longrightarrow> built ho (snd (leaf ho h d))"
| add_Ref: "built ho h \<Longrightarrow> a < length h \<Longrightarrow> b < length h \<Longrightarrow> built ho (snd (add ho h a (Ref b)))"
| add_Num: "built ho h \<Longrightarrow> a < length h \<Longrightarrow> built ho (snd (add ho h a (Num c)))"
| mul_Ref: "built ho h \<Longrightarrow> a < length h \<Longrightarrow> b < length h \<Longrightarrow> built ho (snd (mul ho h a (Ref b)))"
| mul_Num: "built ho h \<Longrightarrow> a < length h \<Longrightarrow> built ho (snd (mul ho h a (Num c)))"
| pow: "built ho h \<Longrightarrow> a < length h \<Longrightarrow> built ho (snd (pow ho h a e))"
| relu: "built ho h \<Longrightarrow> a < length h \<Longrightarrow> built ho (snd (relu ho h a))"
| backward: "built ho h \<Longrightarrow> r < length h \<Longrightarrow> backward h r = Inr h' \<Longrightarrow> built ho h'"
| backward_limit:
    "built ho h \<Longrightarrow> r < length h \<Longrightarrow> backward_limit limit h r = Inr h' \<Longrightarrow> built ho h'"
| backward_raises:
    "built ho h \<Longrightarrow> r < length h \<Longrightarrow> backward_limit limit h r = Inl (e, h') \<Longrightarrow> built ho h'"
| zero_grad: "built ho h \<Longrightarrow> built ho (zero_grad h params)"

subsection \<open>The store of the end-to-end scenario\<close>

text \<open>
  The fourteen objects of the end-to-end scenario, in creation order, as the operators
  leave them before \<open>backward\<close>; the sets \<open>_prev\<close> are in the order the hash order
  gives them. The specification writes the first product as \<open>mul(leaf(2.0), x)\<close>;
  \<open>test_sanity_check\<close> writes \<open>2 * x\<close>, which \<open>__rmul__\<close> turns into \<open>x * 2\<close>, with
  \<open>x\<close> as \<open>self\<close>. The flag says which of the two it is.
\<close>

definition sanity_store :: "hash_order \<Rightarrow> bool \<Rightarrow> heap" where
  "sanity_store ho as_test =
    [\<lparr>data = - 4, grad = 0, backward_fn = NoBackward, prev = [], op = OpNone\<rparr>,
     \<lparr>data = 2, grad = 0, backward_fn = NoBackward, prev = [], op = OpNone\<rparr>,
     \<lparr>data = - 8, grad = 0,
        backward_fn = (if as_test then MulBackward 0 1 2 else MulBackward 1 0 2),
        prev = py_set ho (if as_test then [0, 1] else [1, 0]), op = OpMul\<rparr>,
     \<lparr>data = 2, grad = 0, backward_fn = NoBackward, prev = [], op = OpNone\<rparr>,
     \<lparr>data = - 6, grad = 0, backward_fn = AddBackward 2 3 4, prev = py_set ho [2, 3], op = OpAdd\<rparr>,
     \<lparr>data = - 10, grad = 0, backward_fn = AddBackward 4 0 5, prev = py_set ho [4, 0], op = OpAdd\<rparr>,
     \<lparr>data = 0, grad = 0, backward_fn = ReluBackward 5 6, prev = [5], op = OpReLU\<rparr>,
     \<lparr>data = 40, grad = 0, backward_fn = MulBackward 5 0 7, prev = py_set ho [5, 0], op = OpMul\<rparr>,
     \<lparr>data = 40, grad = 0, backward_fn = AddBackward 6 7 8, prev = py_set ho [6, 7], op = OpAdd\<rparr>,
     \<lparr>data = 100, grad = 0, backward_fn = MulBackward 5 5 9, prev = py_set ho [5, 5], op = OpMul\<rparr>,
     \<lparr>data = 100, grad = 0, backward_fn = ReluBackward 9 10, prev = [9], op = OpReLU\<rparr>,
     \<lparr>data = 140, grad = 0, backward_fn = AddBackward 10 8 11, prev = py_set ho [10, 8], op = OpAdd\<rparr>,
     \<lparr>data = - 160, grad = 0, backward_fn = MulBackward 8 0 12, prev = py_set ho [8, 0], op = OpMul\<rparr>,
     \<lparr>data = - 20, grad = 0, backward_fn = AddBackward 11 12 13, prev = py_set ho [11, 12], op = OpAdd\<rparr>]"

section \<open>Termination of the traversal\<close>

lemma finite_refs_of: "finite (refs_of h)"
  by (simp add: refs_of_def)

lemma children_refs_of: "set (children h v) \<subseteq> refs_of h"
  by (auto simp: children_def refs_of_def)

text \<open>A call of \<open>build_topo\<close> that returns has only added to \<open>visited\<close>.\<close>

lemma visited_grows_dom:
  "build_topo_build_topo_loop_dom (Inl (h, v, st)) \<Longrightarrow> fst st \<subseteq> fst (build_topo h v st)"
  "build_topo_build_topo_loop_dom (Inr (h, cs, st)) \<Longrightarrow> fst st \<subseteq> fst (build_topo_loop h cs st)"
proof (induction h v st and h cs st rule: build_topo_build_topo_loop.pinduct)
  case (1 h v visited topo)
  then show ?case
    by (auto simp: build_topo.psimps split: prod.splits)
next
  case (2 h st)
  then show ?case by (simp add: build_topo_loop.psimps)
next
  case (3 h child rest st)
  then show ?case
    by (auto simp: build_topo_loop.psimps)
qed

lemma unvisited_mono:
  "extra \<subseteq> refs_of h \<union> extra' \<Longrightarrow> finite extra' \<Longrightarrow> visited' \<subseteq> visited
   \<Longrightarrow> unvisited h extra visited \<le> unvisited h extra' visited'"
  unfolding unvisited_def
  by (rule card_mono) (auto simp: finite_refs_of)

lemma unvisited_less:
  "v \<notin> visited \<Longrightarrow> extra \<subseteq> refs_of h \<Longrightarrow>
   unvisited h extra (insert v visited) < unvisited h {v} visited"
  unfolding unvisited_def
  by (rule psubset_card_mono) (auto simp: finite_refs_of)

termination build_topo
proof (relation "inv_image (less_than <*lex*> less_than)
     (\<lambda>x. case x of
        Inl (h, v, visited, topo) \<Rightarrow> (unvisited h {v} visited, 0)
      | Inr (h, cs, visited, topo) \<Rightarrow> (unvisited h (set cs) visited, Suc (length cs)))",
    goal_cases)
  case 1
  show ?case by (intro wf_inv_image wf_lex_prod wf_less_than)
next
  case (2 h v visited topo)
  then show ?case
    using unvisited_less [of v visited "set (children h v)" h] children_refs_of [of h v]
    by simp
next
  case (3 h child rest st)
  obtain visited topo where st: "st = (visited, topo)" by (cases st)
  have "unvisited h {child} visited \<le> unvisited h (set (child # rest)) visited"
    by (rule unvisited_mono) auto
  then show ?case
    by (auto simp: st)
next
  case (4 h child rest st)
  obtain visited topo where st: "st = (visited, topo)" by (cases st)
  obtain visited' topo' where st': "build_topo h child st = (visited', topo')"
    by (cases "build_topo h child st")
  have "visited \<subseteq> visited'"
    using visited_grows_dom(1) [OF 4] st st' by auto
  then have "unvisited h (set rest) visited' \<le> unvisited h (set (child # rest)) visited"
    by (intro unvisited_mono) auto
  then show ?case
    using st st' by auto
qed

section \<open>Properties of the operators\<close>

subsection \<open>Python sets\<close>

lemma set_set_place: "set (set_place ho c ys) = insert c (set ys)"
  by (induction ys) auto

lemma distinct_set_place: "c \<notin> set ys \<Longrightarrow> distinct ys \<Longrightarrow> distinct (set_place ho c ys)"
  by (induction ys) (auto simp: set_set_place)

lemma set_set_add: "set (set_add ho acc c) = insert c (set acc)"
  by (auto simp: set_add_def set_set_place)

lemma distinct_set_add: "distinct acc \<Longrightarrow> distinct (set_add ho acc c)"
  by (simp add: set_add_def distinct_set_place)

lemma foldl_set_add:
  "set (foldl (set_add ho) acc cs) = set acc \<union> set cs"
  "distinct acc \<Longrightarrow> distinct (foldl (set_add ho) acc cs)"
  by (induction cs arbitrary: acc) (auto simp: set_set_add distinct_set_add)

lemma set_py_set: "set (py_set ho cs) = set cs"
  by (simp add: py_set_def foldl_set_add)

lemma distinct_py_set: "distinct (py_set ho cs)"
  by (simp add: py_set_def foldl_set_add)

lemma py_set_simps:
  "py_set ho [] = []"
  "py_set ho [a] = [a]"
  "py_set ho [a, b] = (if a = b then [a] else if ho a b then [b, a] else [a, b])"
  by (auto simp: py_set_def set_add_def)

subsection \<open>What each operator appends\<close>

lemma set_backward_new:
  "set_backward (h @ [v]) (length h) f = h @ [v\<lparr>backward_fn := f\<rparr>]"
  by (simp add: set_backward_def)

lemma leaf_eq:
  "leaf ho h d =
     (length h, h @ [\<lparr>data = d, grad = 0, backward_fn = NoBackward, prev = [], op = OpNone\<rparr>])"
  by (simp add: leaf_def new_def Value_init_def py_set_simps)

lemma add_Ref_eq:
  "add ho h self (Ref other) =
     (length h, h @ [\<lparr>data = data (h ! self) + data (h ! other), grad = 0,
        backward_fn = AddBackward self other (length h), prev = py_set ho [self, other],
        op = OpAdd\<rparr>])"
  by (simp add: add_def wrap_def new_def Value_init_def set_backward_new)

lemma mul_Ref_eq:
  "mul ho h self (Ref other) =
     (length h, h @ [\<lparr>data = data (h ! self) * data (h ! other), grad = 0,
        backward_fn = MulBackward self other (length h), prev = py_set ho [self, other],
        op = OpMul\<rparr>])"
  by (simp add: mul_def wrap_def new_def Value_init_def set_backward_new)

lemma add_Num_eq:
  "add ho h self (Num c) = (case leaf ho h c of (l, h1) \<Rightarrow> add ho h1 self (Ref l))"
  by (simp add: add_def wrap_def split: prod.splits)

lemma mul_Num_eq:
  "mul ho h self (Num c) = (case leaf ho h c of (l, h1) \<Rightarrow> mul ho h1 self (Ref l))"
  by (simp add: mul_def wrap_def split: prod.splits)

lemma relu_eq:
  "relu ho h self =
     (length h, h @ [\<lparr>data = (if data (h ! self) < 0 then 0 else data (h ! self)), grad = 0,
        backward_fn = ReluBackward self (length h), prev = [self], op = OpReLU\<rparr>])"
  by (simp add: relu_def new_def Value_init_def set_backward_new py_set_simps)

lemma pow_Num_eq:
  "pow ho h self (Num n) =
     (case py_pow (data (h ! self)) n of
        Inl e \<Rightarrow> (Inl e, h)
      | Inr d \<Rightarrow> (Inr (length h), h @ [\<lparr>data = d, grad = 0,
          backward_fn = PowBackward self n (length h), prev = [self], op = OpPow n\<rparr>]))"
  by (simp add: pow_def new_def Value_init_def set_backward_new py_set_simps split: sum.splits)

subsection \<open>Well-formed stores\<close>

lemma wf_from_nth: "wf_from k h \<longleftrightarrow> (\<forall>i<length h. wf_value (k + i) (h ! i))"
proof (induction h arbitrary: k)
  case Nil
  show ?case by simp
next
  case (Cons n ns)
  show ?case
    by (auto simp: Cons.IH less_Suc_eq_0_disj)
qed

lemma wf_heap_nth: "wf_heap h \<longleftrightarrow> (\<forall>i<length h. wf_value i (h ! i))"
  by (simp add: wf_heap_def wf_from_nth)

lemma wf_heap_Nil: "wf_heap []"
  by (simp add: wf_heap_def)

lemma wf_heap_snoc: "wf_heap (h @ [n]) \<longleftrightarrow> wf_heap h \<and> wf_value (length h) n"
  by (auto simp: wf_heap_nth nth_append less_Suc_eq)

lemma wf_heap_leaf: "wf_heap h \<Longrightarrow> wf_heap (snd (leaf ho h d))"
  by (simp add: leaf_eq wf_heap_snoc wf_value_def)

lemma wf_heap_add_Ref:
  "wf_heap h \<Longrightarrow> self < length h \<Longrightarrow> other < length h \<Longrightarrow> wf_heap (snd (add ho h self (Ref other)))"
  by (simp add: add_Ref_eq wf_heap_snoc wf_value_def distinct_py_set set_py_set list_all_iff)

lemma wf_heap_mul_Ref:
  "wf_heap h \<Longrightarrow> self < length h \<Longrightarrow> other < length h \<Longrightarrow> wf_heap (snd (mul ho h self (Ref other)))"
  by (simp add: mul_Ref_eq wf_heap_snoc wf_value_def distinct_py_set set_py_set list_all_iff)

lemma wf_heap_add_Num:
  "wf_heap h \<Longrightarrow> self < length h \<Longrightarrow> wf_heap (snd (add ho h self (Num c)))"
  using wf_heap_add_Ref [of "snd (leaf ho h c)" self "length h" ho] wf_heap_leaf [of h ho c]
  by (simp add: add_Num_eq leaf_eq)

lemma wf_heap_mul_Num:
  "wf_heap h \<Longrightarrow> self < length h \<Longrightarrow> wf_heap (snd (mul ho h self (Num c)))"
  using wf_heap_mul_Ref [of "snd (leaf ho h c)" self "length h" ho] wf_heap_leaf [of h ho c]
  by (simp add: mul_Num_eq leaf_eq)

lemma wf_heap_relu: "wf_heap h \<Longrightarrow> self < length h \<Longrightarrow> wf_heap (snd (relu ho h self))"
  by (simp add: relu_eq wf_heap_snoc wf_value_def)

lemma wf_heap_pow: "wf_heap h \<Longrightarrow> self < length h \<Longrightarrow> wf_heap (snd (pow ho h self other))"
proof (cases other)
  case (Num n)
  assume "wf_heap h" "self < length h"
  then show ?thesis
    by (auto simp: Num pow_Num_eq wf_heap_snoc wf_value_def split: sum.splits)
next
  case (Ref r)
  assume "wf_heap h"
  then show ?thesis
    by (simp add: Ref pow_def)
qed

section \<open>The topological order\<close>

lemma children_less: "wf_heap h \<Longrightarrow> c \<in> set (children h v) \<Longrightarrow> c < v"
  by (auto simp: children_def wf_heap_nth wf_value_def list_all_iff split: if_splits)

lemma reachable_le:
  assumes "wf_heap h" and "u \<in> reachable h v"
  shows "u \<le> v"
  using assms(2)
proof (induction rule: reachable.induct)
  case root
  show ?case by simp
next
  case (child w c)
  then show ?case
    using children_less [OF assms(1), of c w] by simp
qed

lemma reachable_via_child:
  "u \<in> reachable h c \<Longrightarrow> c \<in> set (children h v) \<Longrightarrow> u \<in> reachable h v"
proof (induction rule: reachable.induct)
  case root
  then show ?case
    by (blast intro: reachable.intros)
next
  case (child w c')
  then show ?case
    by (blast intro: reachable.intros)
qed

lemma new_in_order_Nil: "new_in_order h visited []"
  by (simp add: new_in_order_def)

lemma new_in_order_append:
  assumes "new_in_order h visited xs" and "new_in_order h (visited \<union> set xs) ys"
  shows "new_in_order h visited (xs @ ys)"
proof -
  have "set (children h ((xs @ ys) ! j)) \<subseteq> visited \<union> set (take j (xs @ ys))"
    if "j < length (xs @ ys)" for j
  proof (cases "j < length xs")
    case True
    with assms(1) show ?thesis
      by (auto simp: new_in_order_def nth_append)
  next
    case False
    with that have "j - length xs < length ys" by simp
    with assms(2) False show ?thesis
      by (auto simp: new_in_order_def nth_append)
  qed
  with assms show ?thesis
    by (auto simp: new_in_order_def)
qed

lemma new_in_order_snoc:
  assumes "new_in_order h (insert v visited) xs"
    and "v \<notin> visited"
    and "\<forall>u\<in>set xs. v \<notin> set (children h u)"
    and "set (children h v) \<subseteq> insert v visited \<union> set xs"
    and "v \<notin> set (children h v)"
  shows "new_in_order h visited (xs @ [v])"
proof -
  have "set (children h ((xs @ [v]) ! j)) \<subseteq> visited \<union> set (take j (xs @ [v]))"
    if "j < length (xs @ [v])" for j
  proof (cases "j < length xs")
    case True
    then have "xs ! j \<in> set xs" by simp
    with assms(3) have "v \<notin> set (children h (xs ! j))" by blast
    moreover from assms(1) True
    have "set (children h (xs ! j)) \<subseteq> insert v visited \<union> set (take j xs)"
      by (simp add: new_in_order_def)
    ultimately show ?thesis
      using True by (auto simp: nth_append)
  next
    case False
    with that have "j = length xs" by simp
    with assms(4,5) show ?thesis
      by auto
  qed
  with assms(1,2) show ?thesis
    by (auto simp: new_in_order_def)
qed

lemma build_topo_new:
  "wf_heap h \<Longrightarrow>
     \<exists>ns. build_topo h v st = (fst st \<union> set ns, snd st @ ns) \<and>
           new_in_order h (fst st) ns \<and> set ns \<subseteq> reachable h v \<and> v \<in> fst st \<union> set ns"
  "wf_heap h \<Longrightarrow>
     \<exists>ns. build_topo_loop h cs st = (fst st \<union> set ns, snd st @ ns) \<and>
           new_in_order h (fst st) ns \<and> set ns \<subseteq> (\<Union>c\<in>set cs. reachable h c) \<and>
           set cs \<subseteq> fst st \<union> set ns"
proof (induction h v st and h cs st rule: build_topo_build_topo_loop.induct)
  case (1 h v visited topo)
  show ?case
  proof (cases "v \<in> visited")
    case True
    then show ?thesis
      by (auto simp: new_in_order_Nil intro!: exI [of _ "[]"])
  next
    case False
    from "1.IH" [OF False "1.prems"] obtain xs where
      loop: "build_topo_loop h (children h v) (insert v visited, topo) =
               (insert v visited \<union> set xs, topo @ xs)"
      and ord: "new_in_order h (insert v visited) xs"
      and reach: "set xs \<subseteq> (\<Union>c\<in>set (children h v). reachable h c)"
      and all: "set (children h v) \<subseteq> insert v visited \<union> set xs"
      by auto
    have below: "u < v" if "u \<in> set xs" for u
    proof -
      from that reach obtain c where "c \<in> set (children h v)" "u \<in> reachable h c" by blast
      with "1.prems" show ?thesis
        using children_less [of h c v] reachable_le [of h u c] by simp
    qed
    have no_back: "\<forall>u\<in>set xs. v \<notin> set (children h u)"
    proof
      fix u assume "u \<in> set xs"
      then have "u < v" by (rule below)
      then show "v \<notin> set (children h u)"
        using children_less [OF "1.prems", of v u] by auto
    qed
    have self: "v \<notin> set (children h v)"
      using children_less [OF "1.prems", of v v] by auto
    have "new_in_order h visited (xs @ [v])"
      using ord False no_back all self by (rule new_in_order_snoc)
    moreover have "set (xs @ [v]) \<subseteq> reachable h v"
      using reach by (auto intro: reachable.root reachable_via_child)
    moreover have "build_topo h v (visited, topo) =
        (visited \<union> set (xs @ [v]), topo @ xs @ [v])"
      using False loop by auto
    ultimately show ?thesis
      by (intro exI [of _ "xs @ [v]"]) simp
  qed
next
  case (2 h st)
  show ?case
    by (auto simp: new_in_order_Nil intro!: exI [of _ "[]"])
next
  case (3 h child rest st)
  from "3.IH"(1) [OF "3.prems"] obtain xs where
    first: "build_topo h child st = (fst st \<union> set xs, snd st @ xs)"
    and ord1: "new_in_order h (fst st) xs"
    and reach1: "set xs \<subseteq> reachable h child"
    and in1: "child \<in> fst st \<union> set xs"
    by auto
  from "3.IH"(2) [OF "3.prems"] first obtain ys where
    second: "build_topo_loop h rest (fst st \<union> set xs, snd st @ xs) =
               (fst st \<union> set xs \<union> set ys, snd st @ xs @ ys)"
    and ord2: "new_in_order h (fst st \<union> set xs) ys"
    and reach2: "set ys \<subseteq> (\<Union>c\<in>set rest. reachable h c)"
    and in2: "set rest \<subseteq> fst st \<union> set xs \<union> set ys"
    by auto
  have "new_in_order h (fst st) (xs @ ys)"
    using ord1 ord2 by (rule new_in_order_append)
  moreover have "build_topo_loop h (child # rest) st =
      (fst st \<union> set (xs @ ys), snd st @ xs @ ys)"
    using first second by (simp add: Un_assoc)
  moreover have "set (xs @ ys) \<subseteq> (\<Union>c\<in>set (child # rest). reachable h c)"
    using reach1 reach2 by auto
  moreover have "set (child # rest) \<subseteq> fst st \<union> set (xs @ ys)"
    using in1 in2 by auto
  ultimately show ?case
    by (intro exI [of _ "xs @ ys"]) simp
qed

lemma topo_of_new:
  assumes "wf_heap h"
  shows "new_in_order h {} (topo_of h r)"
    and "set (topo_of h r) = reachable h r"
proof -
  from build_topo_new(1) [OF assms, of r "({}, [])"] obtain ns where
    eq: "build_topo h r ({}, []) = (set ns, ns)"
    and ord: "new_in_order h {} ns"
    and sub: "set ns \<subseteq> reachable h r"
    and root: "r \<in> set ns"
    by auto
  have topo: "topo_of h r = ns"
    unfolding topo_of_def eq by simp
  show "new_in_order h {} (topo_of h r)"
    using ord by (simp add: topo)
  have "u \<in> set ns" if "u \<in> reachable h r" for u
    using that
  proof (induction rule: reachable.induct)
    case root
    show ?case by fact
  next
    case (child w c)
    from child.IH obtain j where j: "j < length ns" "ns ! j = w"
      by (auto simp: in_set_conv_nth)
    with ord have "set (children h w) \<subseteq> set (take j ns)"
      by (auto simp: new_in_order_def)
    with child.hyps(2) show ?case
      by (auto dest: in_set_takeD)
  qed
  with sub show "set (topo_of h r) = reachable h r"
    by (auto simp: topo)
qed


section \<open>The traversal under the recursion limit\<close>

text \<open>
  When the traversal under the limit returns, it returns what the traversal without a
  limit returns.
\<close>

lemma build_topo_limit_Inr:
  "build_topo_limit frames h v st = Inr st' \<Longrightarrow> st' = build_topo h v st"
  "build_topo_loop_limit frames h cs st = Inr st' \<Longrightarrow> st' = build_topo_loop h cs st"
proof (induction frames h v st and frames h cs st arbitrary: st' and st'
    rule: build_topo_limit_build_topo_loop_limit.induct)
  case (1 h v st)
  then show ?case by simp
next
  case (2 frames h v visited topo)
  show ?case
  proof (cases "v \<in> visited")
    case True
    with "2.prems" have "st' = (visited, topo)" by simp
    with True show ?thesis by simp
  next
    case False
    with "2.prems" obtain visited' topo' where
      loop: "build_topo_loop_limit frames h (children h v) (insert v visited, topo) =
        Inr (visited', topo')" and st': "st' = (visited', topo' @ [v])"
      by (auto split: sum.splits)
    from "2.IH" [OF False loop]
    have "build_topo_loop h (children h v) (insert v visited, topo) = (visited', topo')"
      by simp
    with st' False show ?thesis
      by simp
  qed
next
  case (3 frames h st)
  then show ?case by simp
next
  case (4 frames h child rest st)
  from "4.prems" obtain st1 where
    1: "build_topo_limit frames h child st = Inr st1"
    and 2: "build_topo_loop_limit frames h rest st1 = Inr st'"
    by (auto split: sum.splits)
  from "4.IH"(1) [OF 1] "4.IH"(2) [OF 1 2] show ?case
    by simp
qed

text \<open>
  The depth of a well-formed graph: an operand lies strictly less deep than its consumer.
\<close>

lemma chain_heights_ge:
  "c \<in> set cs \<Longrightarrow> Suc (chain_height k h c) \<le> chain_heights k h cs"
  by (induction cs) auto

lemma chain_heights_cong:
  "(\<And>c. c \<in> set cs \<Longrightarrow> chain_height k h c = chain_height k' h c) \<Longrightarrow>
     chain_heights k h cs = chain_heights k' h cs"
  by (induction cs) simp_all

lemma chain_height_stable:
  assumes "wf_heap h"
  shows "v \<le> k \<Longrightarrow> chain_height k h v = chain_height v h v"
proof (induction v arbitrary: k rule: less_induct)
  case (less v)
  show ?case
  proof (cases v)
    case 0
    have "children h 0 = []"
      using children_less [OF assms, of _ 0] by (cases "children h 0") auto
    with 0 show ?thesis
      by (cases k) simp_all
  next
    case (Suc v')
    with less.prems obtain k' where k: "k = Suc k'" and le: "v' \<le> k'"
      by (cases k) auto
    have "chain_height k' h c = chain_height v' h c" if "c \<in> set (children h v)" for c
    proof -
      from that have "c < v" by (rule children_less [OF assms])
      with Suc le have k': "c \<le> k'" and v': "c \<le> v'" by simp_all
      have "chain_height k' h c = chain_height c h c"
        using \<open>c < v\<close> k' by (rule less.IH)
      moreover have "chain_height v' h c = chain_height c h c"
        using \<open>c < v\<close> v' by (rule less.IH)
      ultimately show ?thesis by (simp only:)
    qed
    then have "chain_heights k' h (children h v) = chain_heights v' h (children h v)"
      by (rule chain_heights_cong)
    with Suc k show ?thesis by simp
  qed
qed

lemma height_child:
  assumes "wf_heap h" and "c \<in> set (children h v)"
  shows "height h c < height h v"
proof -
  from assms have lt: "c < v" by (rule children_less)
  then obtain v' where v: "v = Suc v'" and le: "c \<le> v'"
    by (cases v) auto
  from assms(2) have "Suc (chain_height v' h c) \<le> chain_heights v' h (children h v)"
    by (rule chain_heights_ge)
  with chain_height_stable [OF assms(1) le] show ?thesis
    by (simp add: height_def v)
qed

text \<open>Bounds on the depth: a ranking of the objects, and the reference itself.\<close>

lemma chain_heights_le:
  "(\<And>c. c \<in> set cs \<Longrightarrow> Suc (chain_height k h c) \<le> n) \<Longrightarrow> chain_heights k h cs \<le> n"
  by (induction cs) simp_all

lemma height_le_rank:
  assumes "wf_heap h"
    and "\<And>u c. u \<le> v \<Longrightarrow> c \<in> set (children h u) \<Longrightarrow> rank c < rank u"
  shows "u \<le> v \<Longrightarrow> height h u \<le> rank u"
proof (induction u rule: less_induct)
  case (less u)
  show ?case
  proof (cases u)
    case 0
    then show ?thesis by (simp add: height_def)
  next
    case (Suc u')
    have "Suc (chain_height u' h c) \<le> rank u" if c: "c \<in> set (children h u)" for c
    proof -
      from c have lt: "c < u" by (rule children_less [OF assms(1)])
      with Suc have "c \<le> u'" by simp
      then have "chain_height u' h c = height h c"
        unfolding height_def by (rule chain_height_stable [OF assms(1)])
      moreover from lt less.prems have "height h c \<le> rank c"
        by (intro less.IH) simp_all
      moreover from less.prems c have "rank c < rank u"
        by (rule assms(2))
      ultimately show ?thesis by simp
    qed
    then have "chain_heights u' h (children h u) \<le> rank u"
      by (rule chain_heights_le)
    with Suc show ?thesis by (simp add: height_def)
  qed
qed

lemma height_le: "wf_heap h \<Longrightarrow> height h v \<le> v"
  using height_le_rank [of h v "\<lambda>u. u" v] children_less [of h] by simp

text \<open>A limit above the depth of the graph is never met.\<close>

lemma build_topo_limit_enough:
  "wf_heap h \<Longrightarrow> height h v < frames \<Longrightarrow>
     build_topo_limit frames h v st = Inr (build_topo h v st)"
  "wf_heap h \<Longrightarrow> \<forall>c\<in>set cs. height h c < frames \<Longrightarrow>
     build_topo_loop_limit frames h cs st = Inr (build_topo_loop h cs st)"
proof (induction frames h v st and frames h cs st
    rule: build_topo_limit_build_topo_loop_limit.induct)
  case (1 h v st)
  then show ?case by simp
next
  case (2 frames h v visited topo)
  show ?case
  proof (cases "v \<in> visited")
    case True
    then show ?thesis by simp
  next
    case False
    have "\<forall>c\<in>set (children h v). height h c < frames"
    proof
      fix c assume "c \<in> set (children h v)"
      with "2.prems"(1) have "height h c < height h v" by (rule height_child)
      with "2.prems"(2) show "height h c < frames" by simp
    qed
    from "2.IH" [OF False "2.prems"(1) this] False show ?thesis
      by (simp split: prod.splits)
  qed
next
  case (3 frames h st)
  show ?case by simp
next
  case (4 frames h child rest st)
  from "4.prems" have 1: "build_topo_limit frames h child st = Inr (build_topo h child st)"
    by (intro "4.IH"(1)) simp_all
  from "4.prems" "4.IH"(2) [OF 1] 1 show ?case
    by simp
qed

lemma topo_limit_Inr:
  assumes "topo_limit limit h r = Inr topo"
  shows "topo = topo_of h r"
proof -
  from assms obtain visited where "build_topo_limit limit h r ({}, []) = Inr (visited, topo)"
    by (auto simp: topo_limit_def split: sum.splits)
  then have "(visited, topo) = build_topo h r ({}, [])"
    by (rule build_topo_limit_Inr(1))
  then show ?thesis
    unfolding topo_of_def by (metis snd_conv)
qed

lemma topo_limit_enough:
  assumes "wf_heap h" and "height h r < limit"
  shows "topo_limit limit h r = Inr (topo_of h r)"
  unfolding topo_limit_def topo_of_def build_topo_limit_enough(1) [OF assms]
  by (simp split: prod.splits)


text \<open>
  The traversal raises nothing but \<open>RecursionError\<close>, and \<open>backward\<close> under the
  limit either stops there, with the store as it was, or is \<open>backward\<close>.
\<close>

lemma build_topo_limit_error:
  "build_topo_limit frames h v st = Inl e \<Longrightarrow> e = RecursionError"
  "build_topo_loop_limit frames h cs st = Inl e \<Longrightarrow> e = RecursionError"
  by (induction frames h v st and frames h cs st
      rule: build_topo_limit_build_topo_loop_limit.induct)
    (auto split: sum.splits if_splits)

lemma topo_limit_Inl: "topo_limit limit h r = Inl e \<Longrightarrow> e = RecursionError"
  by (auto simp: topo_limit_def split: sum.splits dest: build_topo_limit_error(1))

lemma backward_limit_Inr_topo:
  "topo_limit limit h r = Inr topo \<Longrightarrow> backward_limit limit h r = backward h r"
  using topo_limit_Inr [of limit h r topo] by (simp add: backward_limit_def backward_def)

lemma backward_limit_enough:
  assumes "wf_heap h" and "height h r < limit"
  shows "backward_limit limit h r = backward h r"
  using topo_limit_enough [OF assms] by (rule backward_limit_Inr_topo)

lemma backward_limit_cases:
  "backward_limit limit h r = Inl (RecursionError, h) \<and> topo_limit limit h r = Inl RecursionError \<or>
   backward_limit limit h r = backward h r \<and> topo_limit limit h r = Inr (topo_of h r)"
proof (cases "topo_limit limit h r")
  case (Inl e)
  with topo_limit_Inl [OF Inl] show ?thesis
    by (simp add: backward_limit_def)
next
  case (Inr topo)
  with topo_limit_Inr [OF Inr] backward_limit_Inr_topo [OF Inr] show ?thesis
    by simp
qed

subsection \<open>A chain of \<open>relu\<close>\<close>






section \<open>The backward pass\<close>

subsection \<open>A store with other gradients\<close>

lemma length_with_grads: "length (with_grads h g) = length h"
  by (simp add: with_grads_def)

lemma nth_with_grads: "i < length h \<Longrightarrow> with_grads h g ! i = (h ! i)\<lparr>grad := g i\<rparr>"
  by (simp add: with_grads_def)

lemma with_grads_self: "with_grads h (\<lambda>i. grad (h ! i)) = h"
  by (rule nth_equalityI) (simp_all add: length_with_grads nth_with_grads)

lemma with_grads_cong: "(\<And>i. i < length h \<Longrightarrow> g i = g' i) \<Longrightarrow> with_grads h g = with_grads h g'"
  by (simp add: with_grads_def)

lemma grad_add_with_grads:
  "r < length h \<Longrightarrow> grad_add (with_grads h g) r d = with_grads h (g(r := g r + d))"
  by (rule nth_equalityI)
     (auto simp: grad_add_def length_with_grads nth_with_grads nth_list_update)

lemma grad_set_with_grads:
  "r < length h \<Longrightarrow> grad_set (with_grads h g) r x = with_grads h (g(r := x))"
  by (rule nth_equalityI)
     (auto simp: grad_set_def length_with_grads nth_with_grads nth_list_update)

subsection \<open>One closure call, on the gradients\<close>

lemma wf_valueD:
  assumes "wf_heap h" and "v < length h"
  shows "set (operands (backward_fn (h ! v))) = set (children h v)"
    and "closure_of v (backward_fn (h ! v))"
    and "\<And>c. c \<in> set (operands (backward_fn (h ! v))) \<Longrightarrow> c < v"
  using assms
  by (auto simp: wf_heap_nth wf_value_def children_def list_all_iff)

lemma call_backward_with_grads:
  assumes "wf_heap h" and "v < length h" and "closure_ok h (backward_fn (h ! v))"
  shows "call_backward (with_grads h g) (backward_fn (h ! v)) =
         Inr (with_grads h (grad_step h v g))"
proof (cases "backward_fn (h ! v)")
  case NoBackward
  then show ?thesis
    by (simp add: grad_step_def weight_def)
next
  case (AddBackward s t out)
  with wf_valueD(2,3) [OF assms(1,2)] have out: "out = v" and lt: "s < v" "t < v"
    by auto
  have "call_backward (with_grads h g) (AddBackward s t v) =
        Inr (with_grads h (grad_step h v g))"
    using lt assms(2)
    by (auto simp: grad_add_with_grads nth_with_grads Let_def grad_step_def weight_def
        AddBackward out algebra_simps intro!: with_grads_cong)
  then show ?thesis
    by (simp add: AddBackward out)
next
  case (MulBackward s t out)
  with wf_valueD(2,3) [OF assms(1,2)] have out: "out = v" and lt: "s < v" "t < v"
    by auto
  have "call_backward (with_grads h g) (MulBackward s t v) =
        Inr (with_grads h (grad_step h v g))"
    using lt assms(2)
    by (auto simp: grad_add_with_grads nth_with_grads Let_def grad_step_def weight_def
        MulBackward out algebra_simps intro!: with_grads_cong)
  then show ?thesis
    by (simp add: MulBackward out)
next
  case (PowBackward s n out)
  with wf_valueD(2,3) [OF assms(1,2)] have out: "out = v" and lt: "s < v"
    by auto
  from assms(3) obtain p where p: "py_pow (data (h ! s)) (n - 1) = Inr p"
    by (auto simp: PowBackward split: sum.splits)
  have "call_backward (with_grads h g) (PowBackward s n v) =
        Inr (with_grads h (grad_step h v g))"
    using lt assms(2) p
    by (auto simp: grad_add_with_grads nth_with_grads grad_step_def weight_def
        PowBackward out algebra_simps intro!: with_grads_cong)
  then show ?thesis
    by (simp add: PowBackward out)
next
  case (ReluBackward s out)
  with wf_valueD(2,3) [OF assms(1,2)] have out: "out = v" and lt: "s < v"
    by auto
  have "call_backward (with_grads h g) (ReluBackward s v) =
        Inr (with_grads h (grad_step h v g))"
    using lt assms(2)
    by (auto simp: grad_add_with_grads nth_with_grads grad_step_def weight_def
        ReluBackward out algebra_simps intro!: with_grads_cong)
  then show ?thesis
    by (simp add: ReluBackward out)
qed

lemma run_backward_with_grads:
  assumes "wf_heap h"
  shows "set vs \<subseteq> {..<length h} \<Longrightarrow> \<forall>v\<in>set vs. closure_ok h (backward_fn (h ! v)) \<Longrightarrow>
     run_backward (with_grads h g) vs = Inr (with_grads h (fold (grad_step h) vs g))"
proof (induction vs arbitrary: g)
  case Nil
  show ?case by simp
next
  case (Cons v vs)
  then have v: "v < length h" and ok: "closure_ok h (backward_fn (h ! v))"
    by auto
  have "backward_fn (with_grads h g ! v) = backward_fn (h ! v)"
    using v by (simp add: nth_with_grads)
  then show ?case
    using call_backward_with_grads [OF assms v ok, of g] Cons.IH [of "grad_step h v g"] Cons.prems
    by simp
qed

subsection \<open>The gradients do not depend on the order\<close>

lemma weight_nonzero:
  assumes "wf_heap h" and "v < length h" and "weight h v u \<noteq> 0"
  shows "u \<in> set (children h v)"
proof -
  from assms(3) have "u \<in> set (operands (backward_fn (h ! v)))"
    by (cases "backward_fn (h ! v)") (auto simp: weight_def split: if_splits)
  with wf_valueD(1) [OF assms(1,2)] show ?thesis by simp
qed

lemma weight_less:
  assumes "wf_heap h" and "v < length h" and "weight h v u \<noteq> 0"
  shows "u < v"
  using weight_nonzero [OF assms] children_less [OF assms(1)] by blast

text \<open>
  After the calls for \<open>vs\<close>, the gradient of \<open>u\<close> is what it was plus, for every
  \<open>v\<close> of \<open>vs\<close>, the weight of \<open>u\<close> in \<open>v\<close> times the final gradient of \<open>v\<close>.
\<close>

lemma fold_grad_step_equation:
  assumes "wf_heap h"
  shows "set vs \<subseteq> {..<length h} \<Longrightarrow> consumers_first h vs \<Longrightarrow>
    fold (grad_step h) vs g u =
      g u + (\<Sum>v\<leftarrow>vs. weight h v u * fold (grad_step h) vs g v)"
proof (induction vs arbitrary: g u)
  case Nil
  show ?case by simp
next
  case (Cons v vs)
  let ?g1 = "grad_step h v g"
  let ?F = "fold (grad_step h) vs ?g1"
  from Cons.prems have v: "v < length h" and vs: "set vs \<subseteq> {..<length h}"
    and later: "\<forall>x\<in>set vs. v \<notin> set (children h x)" and cf: "consumers_first h vs"
    by (auto simp: list_all_iff)
  have eq: "?F w = ?g1 w + (\<Sum>x\<leftarrow>vs. weight h x w * ?F x)" for w
    by (rule Cons.IH [OF vs cf])
  have zero: "weight h x v = 0" if "x \<in> set vs" for x
  proof (rule ccontr)
    assume "weight h x v \<noteq> 0"
    moreover from that vs have "x < length h" by auto
    ultimately have "v \<in> set (children h x)"
      using weight_nonzero [OF assms] by blast
    with later that show False by blast
  qed
  have self: "weight h v v = 0"
    using weight_less [OF assms v, of v] by auto
  have "(\<Sum>x\<leftarrow>vs. weight h x v * ?F x) = (\<Sum>x\<leftarrow>vs. 0)"
    by (rule arg_cong [where f = sum_list], rule map_cong) (simp_all add: zero)
  then have "?F v = ?g1 v"
    using eq [of v] by simp
  moreover have "?g1 v = g v"
    by (simp add: grad_step_def self)
  ultimately have Fv: "?F v = g v"
    by simp
  have "?g1 u = g u + weight h v u * g v"
    by (simp add: grad_step_def)
  with eq [of u] Fv show ?case
    by simp
qed

lemma gradient_equation_unique:
  assumes "wf_heap h" and "S \<subseteq> {..<length h}"
    and f: "\<And>u. f u = g u + (\<Sum>v\<in>S. weight h v u * f v)"
    and f': "\<And>u. f' u = g u + (\<Sum>v\<in>S. weight h v u * f' v)"
  shows "f u = f' u"
proof (induction "length h - u" arbitrary: u rule: less_induct)
  case less
  have "weight h v u * f v = weight h v u * f' v" if "v \<in> S" for v
  proof (cases "weight h v u = 0")
    case True
    then show ?thesis by simp
  next
    case False
    from that assms(2) have v: "v < length h" by auto
    with False have "u < v"
      using weight_less [OF assms(1)] by blast
    with v have "length h - v < length h - u" by simp
    then have "f v = f' v" by (rule less.hyps)
    then show ?thesis by simp
  qed
  then have "(\<Sum>v\<in>S. weight h v u * f v) = (\<Sum>v\<in>S. weight h v u * f' v)"
    by (rule sum.cong [OF refl])
  then show ?case
    using f [of u] f' [of u] by simp
qed

lemma fold_grad_step_order:
  assumes "wf_heap h" and "set vs \<subseteq> {..<length h}" and "set ws = set vs"
    and "distinct vs" and "distinct ws"
    and "consumers_first h vs" and "consumers_first h ws"
  shows "fold (grad_step h) vs g = fold (grad_step h) ws g"
proof
  fix u
  have ws: "set ws \<subseteq> {..<length h}"
    using assms(2,3) by simp
  have "fold (grad_step h) vs g w =
      g w + (\<Sum>v\<in>set vs. weight h v w * fold (grad_step h) vs g v)" for w
    using fold_grad_step_equation [OF assms(1,2,6), of g w]
    by (simp add: sum_list_distinct_conv_sum_set [OF assms(4)])
  moreover have "fold (grad_step h) ws g w =
      g w + (\<Sum>v\<in>set vs. weight h v w * fold (grad_step h) ws g v)" for w
    using fold_grad_step_equation [OF assms(1) ws assms(7), of g w]
    by (simp add: sum_list_distinct_conv_sum_set [OF assms(5)] assms(3))
  ultimately show "fold (grad_step h) vs g u = fold (grad_step h) ws g u"
    by (rule gradient_equation_unique [OF assms(1,2)])
qed

subsection \<open>The order that \<open>backward\<close> uses\<close>

lemma new_in_order_butlast:
  assumes "new_in_order h {} (xs @ [v])"
  shows "new_in_order h {} xs" and "\<forall>u\<in>set xs. v \<notin> set (children h u)"
proof -
  have pre: "set (children h (xs ! j)) \<subseteq> set (take j xs)" if "j < length xs" for j
    using assms that by (auto simp: new_in_order_def nth_append dest!: spec [of _ j])
  with assms show "new_in_order h {} xs"
    by (auto simp: new_in_order_def)
  from assms have "v \<notin> set xs"
    by (auto simp: new_in_order_def)
  have nv: "v \<notin> set xs" by fact
  show "\<forall>u\<in>set xs. v \<notin> set (children h u)"
  proof
    fix u assume "u \<in> set xs"
    then obtain j where "j < length xs" "xs ! j = u"
      by (auto simp: in_set_conv_nth)
    with pre [of j] have "set (children h u) \<subseteq> set xs"
      using set_take_subset [of j xs] by auto
    with nv show "v \<notin> set (children h u)" by blast
  qed
qed

lemma consumers_first_rev: "new_in_order h {} xs \<Longrightarrow> consumers_first h (rev xs)"
proof (induction xs rule: rev_induct)
  case Nil
  show ?case by simp
next
  case (snoc v xs)
  from new_in_order_butlast [OF snoc.prems] snoc.IH show ?case
    by (simp add: list_all_iff)
qed

lemma consumers_first_descending:
  assumes "wf_heap h"
  shows "sorted_wrt (>) vs \<Longrightarrow> consumers_first h vs"
proof (induction vs)
  case Nil
  show ?case by simp
next
  case (Cons v vs)
  have "v \<notin> set (children h u)" if "u \<in> set vs" for u
    using children_less [OF assms, of v u] Cons.prems that by auto
  with Cons show ?case
    by (simp add: list_all_iff)
qed

text \<open>
  \<open>backward\<close> on a well-formed store, with closures that raise nothing, is the run of
  the closures in any order that meets every reachable object once, consumers first.
\<close>

lemma backward_any_order:
  assumes "wf_heap h" and "r < length h"
    and "set vs = reachable h r" and "distinct vs" and "consumers_first h vs"
    and "\<forall>v\<in>set vs. closure_ok h (backward_fn (h ! v))"
  shows "backward h r = run_backward (grad_set h r 1) vs"
proof -
  let ?g = "(\<lambda>i. grad (h ! i))(r := 1)"
  let ?ts = "rev (topo_of h r)"
  have start: "grad_set h r 1 = with_grads h ?g"
    using grad_set_with_grads [OF assms(2), of "\<lambda>i. grad (h ! i)" 1]
    by (simp add: with_grads_self)
  have sets: "set ?ts = set vs"
    using topo_of_new(2) [OF assms(1), of r] assms(3) by simp
  have range: "set vs \<subseteq> {..<length h}"
    using reachable_le [OF assms(1)] assms(2,3) by fastforce
  have dist: "distinct ?ts"
    using topo_of_new(1) [OF assms(1), of r] by (simp add: new_in_order_def)
  have cf: "consumers_first h ?ts"
    using topo_of_new(1) [OF assms(1), of r] by (rule consumers_first_rev)
  have "backward h r = run_backward (with_grads h ?g) ?ts"
    by (simp add: backward_def start)
  also have "\<dots> = Inr (with_grads h (fold (grad_step h) ?ts ?g))"
    using range sets assms(6) by (intro run_backward_with_grads [OF assms(1)]) auto
  also have "fold (grad_step h) ?ts ?g = fold (grad_step h) vs ?g"
    using sets by (intro fold_grad_step_order [OF assms(1) range _ assms(4) dist assms(5) cf, symmetric])
  also have "Inr (with_grads h (fold (grad_step h) vs ?g)) = run_backward (with_grads h ?g) vs"
    using range assms(6) by (intro run_backward_with_grads [OF assms(1), symmetric]) auto
  finally show ?thesis
    by (simp add: start)
qed

subsection \<open>Only the gradients change\<close>

lemma only_grads_differ_iff:
  "only_grads_differ h h' \<longleftrightarrow>
     length h' = length h \<and>
     (\<forall>i<length h. data (h' ! i) = data (h ! i) \<and> backward_fn (h' ! i) = backward_fn (h ! i) \<and>
                    prev (h' ! i) = prev (h ! i) \<and> op (h' ! i) = op (h ! i))"
  by (auto simp: only_grads_differ_def list_all_iff)

lemma only_grads_differ_refl: "only_grads_differ h h"
  by (simp add: only_grads_differ_iff)

lemma only_grads_differ_trans:
  "only_grads_differ h h' \<Longrightarrow> only_grads_differ h' h'' \<Longrightarrow> only_grads_differ h h''"
  by (simp add: only_grads_differ_iff)

lemma only_grads_differ_grad_add: "only_grads_differ h (grad_add h r d)"
proof (cases "r < length h")
  case True
  then show ?thesis
    by (auto simp: only_grads_differ_iff grad_add_def nth_list_update)
next
  case False
  then show ?thesis
    by (simp add: grad_add_def only_grads_differ_refl list_update_beyond)
qed

lemma only_grads_differ_grad_set: "only_grads_differ h (grad_set h r g)"
proof (cases "r < length h")
  case True
  then show ?thesis
    by (auto simp: only_grads_differ_iff grad_set_def nth_list_update)
next
  case False
  then show ?thesis
    by (simp add: grad_set_def only_grads_differ_refl list_update_beyond)
qed

lemma only_grads_differ_call:
  "call_backward h f = Inr h' \<Longrightarrow> only_grads_differ h h'"
proof (cases f)
  case NoBackward
  assume "call_backward h f = Inr h'"
  with NoBackward show ?thesis
    by (auto simp: only_grads_differ_refl)
next
  case (AddBackward s t out)
  assume "call_backward h f = Inr h'"
  with AddBackward show ?thesis
    by (auto simp: Let_def
        intro: only_grads_differ_trans [OF only_grads_differ_grad_add only_grads_differ_grad_add])
next
  case (MulBackward s t out)
  assume "call_backward h f = Inr h'"
  with MulBackward show ?thesis
    by (auto simp: Let_def
        intro: only_grads_differ_trans [OF only_grads_differ_grad_add only_grads_differ_grad_add])
next
  case (PowBackward s n out)
  assume "call_backward h f = Inr h'"
  with PowBackward show ?thesis
    by (auto simp: only_grads_differ_grad_add split: sum.splits)
next
  case (ReluBackward s out)
  assume "call_backward h f = Inr h'"
  with ReluBackward show ?thesis
    by (auto simp: only_grads_differ_grad_add)
qed

lemma only_grads_differ_run:
  "run_backward h vs = Inr h' \<Longrightarrow> only_grads_differ h h'"
proof (induction vs arbitrary: h)
  case Nil
  then show ?case by (simp add: only_grads_differ_refl)
next
  case (Cons v vs)
  then obtain h1 where 1: "call_backward h (backward_fn (h ! v)) = Inr h1"
    and 2: "run_backward h1 vs = Inr h'"
    by (auto split: sum.splits)
  from only_grads_differ_call [OF 1] Cons.IH [OF 2] show ?case
    by (rule only_grads_differ_trans)
qed

lemma only_grads_differ_backward:
  assumes "backward h r = Inr h'"
  shows "only_grads_differ h h'"
proof -
  from assms have "run_backward (grad_set h r 1) (rev (topo_of h r)) = Inr h'"
    by (simp add: backward_def)
  then have "only_grads_differ (grad_set h r 1) h'"
    by (rule only_grads_differ_run)
  with only_grads_differ_grad_set show ?thesis
    by (rule only_grads_differ_trans)
qed

subsection \<open>Exceptions of the backward pass\<close>







lemma only_grads_differ_run_raises:
  "run_backward h vs = Inl (e, h') \<Longrightarrow> only_grads_differ h h'"
proof (induction vs arbitrary: h)
  case Nil
  then show ?case by simp
next
  case (Cons v vs)
  show ?case
  proof (cases "call_backward h (backward_fn (h ! v))")
    case (Inl e')
    with Cons.prems show ?thesis by (simp add: only_grads_differ_refl)
  next
    case (Inr h1)
    with Cons.prems have "run_backward h1 vs = Inl (e, h')" by simp
    from only_grads_differ_call [OF Inr] Cons.IH [OF this] show ?thesis
      by (rule only_grads_differ_trans)
  qed
qed

lemma only_grads_differ_backward_raises:
  assumes "backward h r = Inl (e, h')"
  shows "only_grads_differ h h'"
proof -
  from assms have "run_backward (grad_set h r 1) (rev (topo_of h r)) = Inl (e, h')"
    by (simp add: backward_def)
  then have "only_grads_differ (grad_set h r 1) h'"
    by (rule only_grads_differ_run_raises)
  with only_grads_differ_grad_set show ?thesis
    by (rule only_grads_differ_trans)
qed

lemma only_grads_differ_backward_limit:
  "backward_limit limit h r = Inr h' \<Longrightarrow> only_grads_differ h h'"
  "backward_limit limit h r = Inl (e, h') \<Longrightarrow> only_grads_differ h h'"
  using backward_limit_cases [of limit h r] only_grads_differ_backward [of h r h']
    only_grads_differ_backward_raises [of h r e h'] only_grads_differ_refl [of h]
  by auto

subsection \<open>\<open>zero_grad\<close>\<close>

lemma nth_grad_set:
  "u < length h \<Longrightarrow> grad_set h p x ! u = (if u = p then (h ! u)\<lparr>grad := x\<rparr> else h ! u)"
  by (auto simp: grad_set_def)

lemma length_grad_set: "length (grad_set h p x) = length h"
  by (simp add: grad_set_def)

lemma zero_grad_nth:
  "length (zero_grad h ps) = length h \<and>
   (\<forall>u<length h. zero_grad h ps ! u = (if u \<in> set ps then (h ! u)\<lparr>grad := 0\<rparr> else h ! u))"
proof (induction ps arbitrary: h)
  case Nil
  show ?case by (simp add: zero_grad_def)
next
  case (Cons p ps)
  have "zero_grad h (p # ps) = zero_grad (grad_set h p 0) ps"
    by (simp add: zero_grad_def)
  with Cons [of "grad_set h p 0"] show ?case
    by (simp add: length_grad_set nth_grad_set)
qed

lemma only_grads_differ_zero_grad: "only_grads_differ h (zero_grad h ps)"
  using zero_grad_nth [of h ps] by (auto simp: only_grads_differ_iff)


lemma wf_heap_only_grads_differ:
  "wf_heap h \<Longrightarrow> only_grads_differ h h' \<Longrightarrow> wf_heap h'"
  by (simp add: wf_heap_nth wf_value_def only_grads_differ_iff)

lemma built_wf_heap: "built ho h \<Longrightarrow> wf_heap h"
proof (induction rule: built.induct)
  case empty
  show ?case by (rule wf_heap_Nil)
next
  case (backward h r h')
  then show ?case
    using wf_heap_only_grads_differ only_grads_differ_backward by blast
next
  case (backward_limit h r limit h')
  then show ?case
    using wf_heap_only_grads_differ only_grads_differ_backward_limit(1) by blast
next
  case (backward_raises h r limit e h')
  then show ?case
    using wf_heap_only_grads_differ only_grads_differ_backward_limit(2) by blast
next
  case (zero_grad h params)
  then show ?case
    using wf_heap_only_grads_differ only_grads_differ_zero_grad by blast
qed (simp_all add: wf_heap_leaf wf_heap_add_Ref wf_heap_add_Num wf_heap_mul_Ref wf_heap_mul_Num
      wf_heap_pow wf_heap_relu)

subsection \<open>A run that succeeds met no failing closure\<close>





subsection \<open>A backward pass that raises\<close>






subsection \<open>What the operators append\<close>









subsection \<open>Small graphs\<close>


lemma topo_of_leaf_then_unary:
  assumes "length h = Suc (Suc n)" and "prev (h ! Suc n) = [n]" and "prev (h ! n) = []"
  shows "topo_of h (Suc n) = [n, Suc n]"
  using assms by (simp add: topo_of_def children_def)

lemma relu_then_backward:
  assumes "leaf ho h d = (x, h1)"
    and "relu ho h1 x = (y, h2)"
  shows "\<exists>h'. backward h2 y = Inr h' \<and>
     data (h2 ! y) = (if d < 0 then 0 else d) \<and> grad (h' ! x) = (if 0 < d then 1 else 0)"
proof -
  let ?n = "length h"
  from assms(1) have x: "x = ?n"
    and h1: "h1 = h @ [\<lparr>data = d, grad = 0, backward_fn = NoBackward, prev = [], op = OpNone\<rparr>]"
    by (auto simp: leaf_eq)
  from assms(2) have y: "y = Suc ?n"
    and h2: "h2 = h1 @ [\<lparr>data = (if d < 0 then 0 else d), grad = 0,
        backward_fn = ReluBackward ?n (Suc ?n), prev = [?n], op = OpReLU\<rparr>]"
    by (auto simp: relu_eq x h1)
  have topo: "topo_of h2 y = [?n, Suc ?n]"
    unfolding y by (rule topo_of_leaf_then_unary) (simp_all add: h2 h1 nth_append)
  have "backward h2 y = run_backward (grad_set h2 y 1) [Suc ?n, ?n]"
    by (simp add: backward_def topo)
  then show ?thesis
    by (auto simp: x y h2 h1 grad_set_def grad_add_def nth_append)
qed

text \<open>
  These graphs are two objects deep: with two nested calls allowed, the recursion limit
  is not met, and \<open>backward\<close> under the limit is \<open>backward\<close>.
\<close>

lemma topo_limit_leaf_then_unary:
  assumes "length h = Suc (Suc n)" and "prev (h ! Suc n) = [n]" and "prev (h ! n) = []"
    and "2 \<le> limit"
  shows "topo_limit limit h (Suc n) = Inr [n, Suc n]"
proof -
  from assms(4) obtain k where "limit = Suc (Suc k)"
    by (metis Suc_le_D numeral_2_eq_2 Suc_le_mono)
  with assms(1-3) show ?thesis
    by (simp add: topo_limit_def children_def)
qed

lemma backward_limit_leaf_then_unary:
  assumes "length h = Suc (Suc n)" and "prev (h ! Suc n) = [n]" and "prev (h ! n) = []"
    and "2 \<le> limit"
  shows "backward_limit limit h (Suc n) = backward h (Suc n)"
  using topo_limit_leaf_then_unary [OF assms] by (rule backward_limit_Inr_topo)

lemma small_graphs_backward_limit:
  assumes "leaf ho h d = (x, h1)" and "2 \<le> limit"
  shows "add ho h1 x (Ref x) = (y, h2) \<Longrightarrow> backward_limit limit h2 y = backward h2 y"
    and "pow ho h1 x (Num n) = (Inr y, h2) \<Longrightarrow> backward_limit limit h2 y = backward h2 y"
    and "relu ho h1 x = (y, h2) \<Longrightarrow> backward_limit limit h2 y = backward h2 y"
proof -
  from assms(1) have x: "x = length h" and h1: "length h1 = Suc (length h)" "prev (h1 ! length h) = []"
    by (auto simp: leaf_eq)
  show "backward_limit limit h2 y = backward h2 y" if "add ho h1 x (Ref x) = (y, h2)"
  proof -
    from that x h1 have "y = Suc (length h)" and "length h2 = Suc (Suc (length h))"
      and "prev (h2 ! Suc (length h)) = [length h]" and "prev (h2 ! length h) = []"
      by (auto simp: add_Ref_eq py_set_simps nth_append)
    with assms(2) show ?thesis
      by (simp add: backward_limit_leaf_then_unary)
  qed
  show "backward_limit limit h2 y = backward h2 y" if "pow ho h1 x (Num n) = (Inr y, h2)"
  proof -
    from that x h1 have "y = Suc (length h)" and "length h2 = Suc (Suc (length h))"
      and "prev (h2 ! Suc (length h)) = [length h]" and "prev (h2 ! length h) = []"
      by (auto simp: pow_Num_eq py_set_simps nth_append split: sum.splits)
    with assms(2) show ?thesis
      by (simp add: backward_limit_leaf_then_unary)
  qed
  show "backward_limit limit h2 y = backward h2 y" if "relu ho h1 x = (y, h2)"
  proof -
    from that x h1 have "y = Suc (length h)" and "length h2 = Suc (Suc (length h))"
      and "prev (h2 ! Suc (length h)) = [length h]" and "prev (h2 ! length h) = []"
      by (auto simp: relu_eq nth_append)
    with assms(2) show ?thesis
      by (simp add: backward_limit_leaf_then_unary)
  qed
qed

subsection \<open>The end-to-end scenario\<close>

lemma sanity_store_built:
  assumes "leaf ho [] (- 4) = (x, h0)"
    and "leaf ho h0 2 = (c1, h1)"
    and "mul ho h1 c1 (Ref x) = (m, h2)"
    and "leaf ho h2 2 = (c2, h3)"
    and "add ho h3 m (Ref c2) = (s, h4)"
    and "add ho h4 s (Ref x) = (z, h5)"
    and "relu ho h5 z = (rz, h6)"
    and "mul ho h6 z (Ref x) = (zx, h7)"
    and "add ho h7 rz (Ref zx) = (q, h8)"
    and "mul ho h8 z (Ref z) = (zz, h9)"
    and "relu ho h9 zz = (hh, h10)"
    and "add ho h10 hh (Ref q) = (hq, h11)"
    and "mul ho h11 q (Ref x) = (qx, h12)"
    and "add ho h12 hq (Ref qx) = (y, h13)"
  shows "x = 0 \<and> y = 13 \<and> h13 = sanity_store ho False"
  using assms [symmetric]
  by (clarsimp simp: leaf_eq add_Ref_eq mul_Ref_eq relu_eq nth_append sanity_store_def
      eval_nat_numeral)

lemma length_sanity_store: "length (sanity_store ho t) = 14"
  by (simp add: sanity_store_def)

lemma wf_sanity_store: "wf_heap (sanity_store ho t)"
  by (simp add: sanity_store_def wf_heap_def wf_value_def distinct_py_set set_py_set list_all_iff)

lemma children_sanity_store:
  "set (children (sanity_store ho t) 13) = {11, 12}"
  "set (children (sanity_store ho t) 12) = {8, 0}"
  "set (children (sanity_store ho t) 11) = {10, 8}"
  "set (children (sanity_store ho t) 10) = {9}"
  "set (children (sanity_store ho t) 9) = {5}"
  "set (children (sanity_store ho t) 8) = {6, 7}"
  "set (children (sanity_store ho t) 7) = {5, 0}"
  "set (children (sanity_store ho t) 5) = {4, 0}"
  "set (children (sanity_store ho t) 4) = {2, 3}"
  "set (children (sanity_store ho t) 2) = {1, 0}"
  by (auto simp: children_def sanity_store_def set_py_set)

lemma reachable_sanity_store:
  "reachable (sanity_store ho t) 13 = set [13, 12, 11, 10, 9, 8, 7, 6, 5, 4, 3, 2, 1, 0]"
proof -
  let ?H = "sanity_store ho t"
  note step = reachable.child [of _ ?H 13]
  have r13: "13 \<in> reachable ?H 13" by (rule reachable.root)
  have r12: "12 \<in> reachable ?H 13" by (rule step [OF r13]) (simp add: children_sanity_store)
  have r11: "11 \<in> reachable ?H 13" by (rule step [OF r13]) (simp add: children_sanity_store)
  have r10: "10 \<in> reachable ?H 13" by (rule step [OF r11]) (simp add: children_sanity_store)
  have r9: "9 \<in> reachable ?H 13" by (rule step [OF r10]) (simp add: children_sanity_store)
  have r8: "8 \<in> reachable ?H 13" by (rule step [OF r11]) (simp add: children_sanity_store)
  have r7: "7 \<in> reachable ?H 13" by (rule step [OF r8]) (simp add: children_sanity_store)
  have r6: "6 \<in> reachable ?H 13" by (rule step [OF r8]) (simp add: children_sanity_store)
  have r5: "5 \<in> reachable ?H 13" by (rule step [OF r9]) (simp add: children_sanity_store)
  have r4: "4 \<in> reachable ?H 13" by (rule step [OF r5]) (simp add: children_sanity_store)
  have r3: "3 \<in> reachable ?H 13" by (rule step [OF r4]) (simp add: children_sanity_store)
  have r2: "2 \<in> reachable ?H 13" by (rule step [OF r4]) (simp add: children_sanity_store)
  have r1: "1 \<in> reachable ?H 13" by (rule step [OF r2]) (simp add: children_sanity_store)
  have r0: "0 \<in> reachable ?H 13" by (rule step [OF r2]) (simp add: children_sanity_store)
  have "u \<in> set [13, 12, 11, 10, 9, 8, 7, 6, 5, 4, 3, 2, 1, 0]" if "u \<in> reachable ?H 13" for u
  proof -
    from that have "u \<le> 13" by (rule reachable_le [OF wf_sanity_store])
    then have "u < 14" by simp
    then show ?thesis
      by (auto simp: less_Suc_eq numeral_eq_Suc)
  qed
  with r0 r1 r2 r3 r4 r5 r6 r7 r8 r9 r10 r11 r12 r13 show ?thesis
    by auto
qed

lemma sanity_run:
  "\<exists>h'. run_backward (grad_set (sanity_store ho t) 13 1) [13, 12, 11, 10, 9, 8, 7, 6, 5, 4, 3, 2, 1, 0]
      = Inr h' \<and> data (h' ! 13) = - 20 \<and> grad (h' ! 0) = 46"
  by (simp add: sanity_store_def grad_set_def grad_add_def Let_def)

lemma sanity_backward:
  "\<exists>h'. backward (sanity_store ho t) 13 = Inr h' \<and> data (h' ! 13) = - 20 \<and> grad (h' ! 0) = 46"
proof -
  let ?H = "sanity_store ho t"
  let ?vs = "[13, 12, 11, 10, 9, 8, 7, 6, 5, 4, 3, 2, 1, 0] :: ref list"
  have "consumers_first ?H ?vs"
    by (rule consumers_first_descending [OF wf_sanity_store]) simp
  moreover have "\<forall>v\<in>set ?vs. closure_ok ?H (backward_fn (?H ! v))"
    by (simp add: sanity_store_def)
  moreover have "distinct ?vs" by simp
  moreover have "13 < length ?H" by (simp add: length_sanity_store)
  ultimately have "backward ?H 13 = run_backward (grad_set ?H 13 1) ?vs"
    using reachable_sanity_store [of ho t]
    by (intro backward_any_order [OF wf_sanity_store]) simp_all
  with sanity_run [of ho t] show ?thesis
    by simp
qed

text \<open>
  The longest chain of operands in the scenario has 7 edges, whatever the order of the
  sets: with 8 nested calls allowed the recursion limit is not met.
\<close>

lemma height_sanity_store: "height (sanity_store ho t) 13 \<le> 7"
proof -
  let ?S = "sanity_store ho t"
  define rank :: "ref \<Rightarrow> nat" where
    "rank = (\<lambda>v. [0, 0, 1, 0, 2, 3, 4, 4, 5, 4, 5, 6, 6, 7] ! v)"
  have rk: "rank c < rank u" if "u \<le> 13" and "c \<in> set (children ?S u)" for u c
  proof -
    from that(1) have "u = 0 \<or> u = 1 \<or> u = 2 \<or> u = 3 \<or> u = 4 \<or> u = 5 \<or> u = 6 \<or> u = 7 \<or>
        u = 8 \<or> u = 9 \<or> u = 10 \<or> u = 11 \<or> u = 12 \<or> u = 13"
      by arith
    with that(2) show ?thesis
      by (auto simp: rank_def children_def sanity_store_def set_py_set split: if_splits)
  qed
  have "height ?S 13 \<le> rank 13"
    by (rule height_le_rank [where v = 13, OF wf_sanity_store rk]) simp_all
  then show ?thesis
    by (simp add: rank_def)
qed

lemma sanity_backward_limit:
  assumes "8 \<le> limit"
  shows "backward_limit limit (sanity_store ho t) 13 = backward (sanity_store ho t) 13"
  using height_sanity_store [of ho t] assms
  by (intro backward_limit_enough [OF wf_sanity_store]) simp

lemma sanity_program_backward_limit:
  assumes "leaf ho [] (- 4) = (x, h0)"
    and "leaf ho h0 2 = (c1, h1)"
    and "mul ho h1 c1 (Ref x) = (m, h2)"
    and "leaf ho h2 2 = (c2, h3)"
    and "add ho h3 m (Ref c2) = (s, h4)"
    and "add ho h4 s (Ref x) = (z, h5)"
    and "relu ho h5 z = (rz, h6)"
    and "mul ho h6 z (Ref x) = (zx, h7)"
    and "add ho h7 rz (Ref zx) = (q, h8)"
    and "mul ho h8 z (Ref z) = (zz, h9)"
    and "relu ho h9 zz = (hh, h10)"
    and "add ho h10 hh (Ref q) = (hq, h11)"
    and "mul ho h11 q (Ref x) = (qx, h12)"
    and "add ho h12 hq (Ref qx) = (y, h13)"
    and "8 \<le> limit"
  shows "backward_limit limit h13 y = backward h13 y"
proof -
  from sanity_store_built [OF assms(1-14)] have "y = 13" and "h13 = sanity_store ho False"
    by simp_all
  with sanity_backward_limit [OF assms(15), of ho False] show ?thesis
    by simp
qed

text \<open>
  The program of \<open>test_sanity_check\<close> as Python evaluates it: \<open>2 * x\<close> is
  \<open>x.__rmul__(2)\<close>, which wraps the number after \<open>x\<close>, and \<open>+ 2\<close> and the other
  operators are called on \<open>Value\<close> objects or wrap their number themselves.
\<close>

lemma test_store_built:
  assumes "leaf ho [] (- 4) = (x, h0)"
    and "rmul ho h0 x (Num 2) = (m, h2)"
    and "add ho h2 m (Num 2) = (s, h4)"
    and "add ho h4 s (Ref x) = (z, h5)"
    and "relu ho h5 z = (rz, h6)"
    and "mul ho h6 z (Ref x) = (zx, h7)"
    and "add ho h7 rz (Ref zx) = (q, h8)"
    and "mul ho h8 z (Ref z) = (zz, h9)"
    and "relu ho h9 zz = (hh, h10)"
    and "add ho h10 hh (Ref q) = (hq, h11)"
    and "mul ho h11 q (Ref x) = (qx, h12)"
    and "add ho h12 hq (Ref qx) = (y, h13)"
  shows "x = 0 \<and> y = 13 \<and> h13 = sanity_store ho True"
  using assms [symmetric]
  by (clarsimp simp: rmul_def add_Num_eq mul_Num_eq leaf_eq add_Ref_eq mul_Ref_eq relu_eq
      nth_append sanity_store_def eval_nat_numeral)

lemma test_sanity_check:
  assumes "leaf ho [] (- 4) = (x, h0)"
    and "rmul ho h0 x (Num 2) = (m, h2)"
    and "add ho h2 m (Num 2) = (s, h4)"
    and "add ho h4 s (Ref x) = (z, h5)"
    and "relu ho h5 z = (rz, h6)"
    and "mul ho h6 z (Ref x) = (zx, h7)"
    and "add ho h7 rz (Ref zx) = (q, h8)"
    and "mul ho h8 z (Ref z) = (zz, h9)"
    and "relu ho h9 zz = (hh, h10)"
    and "add ho h10 hh (Ref q) = (hq, h11)"
    and "mul ho h11 q (Ref x) = (qx, h12)"
    and "add ho h12 hq (Ref qx) = (y, h13)"
  shows "\<exists>h'. backward h13 y = Inr h' \<and> data (h' ! y) = - 20 \<and> grad (h' ! x) = 46"
proof -
  from test_store_built [OF assms] have "x = 0" and "y = 13"
    and "h13 = sanity_store ho True"
    by simp_all
  with sanity_backward [of ho True] show ?thesis
    by simp
qed

section \<open>The claims\<close>

text \<open>
  C1. The end-to-end scenario. In an empty store and under any hash order, after
  \<open>x = leaf(-4.0)\<close>, \<open>z = add(add(mul(leaf(2.0), x), leaf(2.0)), x)\<close>,
  \<open>q = add(relu(z), mul(z, x))\<close>, \<open>h = relu(mul(z, z))\<close> and
  \<open>y = add(add(h, q), mul(q, x))\<close>, the call \<open>backward(y)\<close> raises nothing and leaves
  the value of \<open>y\<close> at -20 and the gradient of \<open>x\<close> at 46.
\<close>

theorem sanity_check:
  assumes "leaf ho [] (- 4) = (x, h0)"
    and "leaf ho h0 2 = (c1, h1)"
    and "mul ho h1 c1 (Ref x) = (m, h2)"
    and "leaf ho h2 2 = (c2, h3)"
    and "add ho h3 m (Ref c2) = (s, h4)"
    and "add ho h4 s (Ref x) = (z, h5)"
    and "relu ho h5 z = (rz, h6)"
    and "mul ho h6 z (Ref x) = (zx, h7)"
    and "add ho h7 rz (Ref zx) = (q, h8)"
    and "mul ho h8 z (Ref z) = (zz, h9)"
    and "relu ho h9 zz = (hh, h10)"
    and "add ho h10 hh (Ref q) = (hq, h11)"
    and "mul ho h11 q (Ref x) = (qx, h12)"
    and "add ho h12 hq (Ref qx) = (y, h13)"
  shows "\<exists>h'. backward h13 y = Inr h' \<and> data (h' ! y) = - 20 \<and> grad (h' ! x) = 46"
proof -
  from sanity_store_built [OF assms] have "x = 0" and "y = 13"
    and "h13 = sanity_store ho False"
    by simp_all
  with sanity_backward [of ho False] show ?thesis
    by simp
qed

text \<open>
  C1, at a concrete input: the scenario under the hash order that keeps insertion order;
  each line of the program yields the next prefix of the store.
\<close>

theorem sanity_check_witness:
  "leaf insertion_order [] (- 4) = (0, take 1 (sanity_store insertion_order False)) \<and>
   leaf insertion_order (take 1 (sanity_store insertion_order False)) 2 =
     (1, take 2 (sanity_store insertion_order False)) \<and>
   mul insertion_order (take 2 (sanity_store insertion_order False)) 1 (Ref 0) =
     (2, take 3 (sanity_store insertion_order False)) \<and>
   leaf insertion_order (take 3 (sanity_store insertion_order False)) 2 =
     (3, take 4 (sanity_store insertion_order False)) \<and>
   add insertion_order (take 4 (sanity_store insertion_order False)) 2 (Ref 3) =
     (4, take 5 (sanity_store insertion_order False)) \<and>
   add insertion_order (take 5 (sanity_store insertion_order False)) 4 (Ref 0) =
     (5, take 6 (sanity_store insertion_order False)) \<and>
   relu insertion_order (take 6 (sanity_store insertion_order False)) 5 =
     (6, take 7 (sanity_store insertion_order False)) \<and>
   mul insertion_order (take 7 (sanity_store insertion_order False)) 5 (Ref 0) =
     (7, take 8 (sanity_store insertion_order False)) \<and>
   add insertion_order (take 8 (sanity_store insertion_order False)) 6 (Ref 7) =
     (8, take 9 (sanity_store insertion_order False)) \<and>
   mul insertion_order (take 9 (sanity_store insertion_order False)) 5 (Ref 5) =
     (9, take 10 (sanity_store insertion_order False)) \<and>
   relu insertion_order (take 10 (sanity_store insertion_order False)) 9 =
     (10, take 11 (sanity_store insertion_order False)) \<and>
   add insertion_order (take 11 (sanity_store insertion_order False)) 10 (Ref 8) =
     (11, take 12 (sanity_store insertion_order False)) \<and>
   mul insertion_order (take 12 (sanity_store insertion_order False)) 8 (Ref 0) =
     (12, take 13 (sanity_store insertion_order False)) \<and>
   add insertion_order (take 13 (sanity_store insertion_order False)) 11 (Ref 12) =
     (13, sanity_store insertion_order False) \<and>
   (\<exists>h'. backward (sanity_store insertion_order False) 13 = Inr h' \<and>
         data (h' ! 13) = - 20 \<and> grad (h' ! 0) = 46)"
proof -
  let ?S = "sanity_store insertion_order False"
  have a0: "leaf insertion_order [] (- 4) = (0, take 1 ?S)"
    by (simp add: leaf_eq sanity_store_def)
  have a1: "leaf insertion_order (take 1 ?S) 2 = (1, take 2 ?S)"
    by (simp add: leaf_eq sanity_store_def)
  have a2: "mul insertion_order (take 2 ?S) 1 (Ref 0) = (2, take 3 ?S)"
    by (simp add: mul_Ref_eq sanity_store_def)
  have a3: "leaf insertion_order (take 3 ?S) 2 = (3, take 4 ?S)"
    by (simp add: leaf_eq sanity_store_def)
  have a4: "add insertion_order (take 4 ?S) 2 (Ref 3) = (4, take 5 ?S)"
    by (simp add: add_Ref_eq sanity_store_def)
  have a5: "add insertion_order (take 5 ?S) 4 (Ref 0) = (5, take 6 ?S)"
    by (simp add: add_Ref_eq sanity_store_def)
  have a6: "relu insertion_order (take 6 ?S) 5 = (6, take 7 ?S)"
    by (simp add: relu_eq sanity_store_def)
  have a7: "mul insertion_order (take 7 ?S) 5 (Ref 0) = (7, take 8 ?S)"
    by (simp add: mul_Ref_eq sanity_store_def)
  have a8: "add insertion_order (take 8 ?S) 6 (Ref 7) = (8, take 9 ?S)"
    by (simp add: add_Ref_eq sanity_store_def)
  have a9: "mul insertion_order (take 9 ?S) 5 (Ref 5) = (9, take 10 ?S)"
    by (simp add: mul_Ref_eq sanity_store_def)
  have a10: "relu insertion_order (take 10 ?S) 9 = (10, take 11 ?S)"
    by (simp add: relu_eq sanity_store_def)
  have a11: "add insertion_order (take 11 ?S) 10 (Ref 8) = (11, take 12 ?S)"
    by (simp add: add_Ref_eq sanity_store_def)
  have a12: "mul insertion_order (take 12 ?S) 8 (Ref 0) = (12, take 13 ?S)"
    by (simp add: mul_Ref_eq sanity_store_def)
  have a13: "add insertion_order (take 13 ?S) 11 (Ref 12) = (13, ?S)"
    by (simp add: add_Ref_eq sanity_store_def)
  from sanity_check [OF a0 a1 a2 a3 a4 a5 a6 a7 a8 a9 a10 a11 a12 a13]
    a0 a1 a2 a3 a4 a5 a6 a7 a8 a9 a10 a11 a12 a13
  show ?thesis
    by (intro conjI)
qed









text \<open>
  C5. \<open>pow\<close> with a \<open>Value\<close> as exponent fails at the call, with the
  \<open>AssertionError\<close> of its first line, and the store is the one before the call: nothing
  is created and nothing is changed. With a number as exponent that error never arises.
\<close>

theorem pow_rejects_node_exponent:
  "pow ho h self (Ref r) = (Inl AssertionError, h) \<and>
   fst (pow ho h self (Num n)) \<noteq> Inl AssertionError"
proof -
  have "py_pow x n \<noteq> Inl AssertionError" for x
    by (simp add: py_pow_def)
  then have "fst (pow ho h self (Num n)) \<noteq> Inl AssertionError"
    by (cases "py_pow (data (h ! self)) n") (auto simp: pow_Num_eq)
  then show ?thesis
    by (simp add: pow_def)
qed

text \<open>
  C6, as stated, fails: \<open>_prev\<close> is a set, so \<open>add(x, x)\<close> stores one operand,
  not two.
\<close>

theorem operands_same_node_counterexample:
  "length (prev (snd (add insertion_order
      [\<lparr>data = 3, grad = 0, backward_fn = NoBackward, prev = [], op = OpNone\<rparr>] 0 (Ref 0)) ! 1))
   \<noteq> 2"
  by (simp add: add_Ref_eq py_set_simps)

text \<open>
  C6, amended. The operands of an object are stored in \<open>_prev\<close> as a set, without
  order or duplicates, of references to objects created before it: no element for a leaf,
  one for \<open>pow\<close> and \<open>relu\<close>, and for \<open>add\<close> and \<open>mul\<close> two when the
  operands are different objects and one when they are the same object. The closure of
  the object keeps the operands in order, \<open>self\<close> then \<open>other\<close>, also when they are
  the same object.
\<close>

theorem operands_stored:
  assumes "a < length h" and "b < length h"
  shows "prev (snd (leaf ho h d) ! length h) = [] \<and>
    (case add ho h a (Ref b) of (out, h') \<Rightarrow>
       out = length h \<and> set (prev (h' ! out)) = {a, b} \<and> distinct (prev (h' ! out)) \<and>
       length (prev (h' ! out)) = (if a = b then 1 else 2) \<and>
       list_all (\<lambda>c. c < out) (prev (h' ! out)) \<and>
       operands (backward_fn (h' ! out)) = [a, b]) \<and>
    (case mul ho h a (Ref b) of (out, h') \<Rightarrow>
       out = length h \<and> set (prev (h' ! out)) = {a, b} \<and> distinct (prev (h' ! out)) \<and>
       length (prev (h' ! out)) = (if a = b then 1 else 2) \<and>
       list_all (\<lambda>c. c < out) (prev (h' ! out)) \<and>
       operands (backward_fn (h' ! out)) = [a, b]) \<and>
    (case relu ho h a of (out, h') \<Rightarrow>
       out = length h \<and> prev (h' ! out) = [a] \<and> operands (backward_fn (h' ! out)) = [a]) \<and>
    (case pow ho h a (Num e) of
       (Inl err, h') \<Rightarrow> h' = h
     | (Inr out, h') \<Rightarrow>
         out = length h \<and> prev (h' ! out) = [a] \<and> operands (backward_fn (h' ! out)) = [a])"
proof -
  have "length (py_set ho [a, b]) = (if a = b then 1 else 2)"
    by (simp add: py_set_simps)
  moreover have "list_all (\<lambda>c. c < length h) (py_set ho [a, b])"
    using assms by (simp add: list_all_iff set_py_set)
  ultimately show ?thesis
    by (simp add: leaf_eq add_Ref_eq mul_Ref_eq relu_eq pow_Num_eq set_py_set distinct_py_set
        split: sum.splits)
qed

text \<open>
  C6 amended, at a concrete input: \<open>add(x, x)\<close>.
\<close>

theorem operands_stored_witness:
  "(0::nat) < length [\<lparr>data = 3, grad = 0, backward_fn = NoBackward, prev = [], op = OpNone\<rparr>] \<and>
   add insertion_order
     [\<lparr>data = 3, grad = 0, backward_fn = NoBackward, prev = [], op = OpNone\<rparr>] 0 (Ref 0) =
     (1, [\<lparr>data = 3, grad = 0, backward_fn = NoBackward, prev = [], op = OpNone\<rparr>,
          \<lparr>data = 6, grad = 0, backward_fn = AddBackward 0 0 1, prev = [0], op = OpAdd\<rparr>]) \<and>
   (case add insertion_order
        [\<lparr>data = 3, grad = 0, backward_fn = NoBackward, prev = [], op = OpNone\<rparr>] 0 (Ref 0)
    of (out, h') \<Rightarrow> length (prev (h' ! out)) = 1 \<and> operands (backward_fn (h' ! out)) = [0, 0])"
proof -
  let ?h = "[\<lparr>data = 3, grad = 0, backward_fn = NoBackward, prev = [], op = OpNone\<rparr>]"
  have lt: "0 < length ?h" by simp
  from operands_stored [OF lt lt, of insertion_order] show ?thesis
    by (simp add: add_Ref_eq py_set_simps)
qed

text \<open>
  C7. The power rule: in any store and under any hash order, after \<open>x = leaf(2.0)\<close>
  and \<open>y = pow(x, 3)\<close> the call succeeds and the value of \<open>y\<close> is 8, and after
  \<open>backward(y)\<close> the gradient of \<open>x\<close> is 12.
\<close>

theorem power_rule:
  assumes "leaf ho h 2 = (x, h1)"
    and "pow ho h1 x (Num 3) = (r, h2)"
  shows "\<exists>y h'. r = Inr y \<and> data (h2 ! y) = 8 \<and> backward h2 y = Inr h' \<and> grad (h' ! x) = 12"
proof -
  let ?n = "length h"
  from assms(1) have x: "x = ?n"
    and h1: "h1 = h @ [\<lparr>data = 2, grad = 0, backward_fn = NoBackward, prev = [], op = OpNone\<rparr>]"
    by (auto simp: leaf_eq)
  have p: "py_pow 2 3 = Inr 8" "py_pow 2 2 = Inr 4"
    by (simp_all add: py_pow_def)
  from assms(2) have r: "r = Inr (Suc ?n)"
    and h2: "h2 = h1 @ [\<lparr>data = 8, grad = 0,
        backward_fn = PowBackward ?n 3 (Suc ?n), prev = [?n], op = OpPow 3\<rparr>]"
    by (auto simp: pow_Num_eq x h1 p)
  have topo: "topo_of h2 (Suc ?n) = [?n, Suc ?n]"
    by (rule topo_of_leaf_then_unary) (simp_all add: h2 h1 nth_append)
  have "backward h2 (Suc ?n) = run_backward (grad_set h2 (Suc ?n) 1) [Suc ?n, ?n]"
    by (simp add: backward_def topo)
  then show ?thesis
    by (simp add: r x h2 h1 grad_set_def grad_add_def nth_append p)
qed

text \<open>
  C7, at a concrete input: the empty store.
\<close>

theorem power_rule_witness:
  "leaf insertion_order [] 2 =
     (0, [\<lparr>data = 2, grad = 0, backward_fn = NoBackward, prev = [], op = OpNone\<rparr>]) \<and>
   pow insertion_order
     [\<lparr>data = 2, grad = 0, backward_fn = NoBackward, prev = [], op = OpNone\<rparr>] 0 (Num 3) =
     (Inr 1, [\<lparr>data = 2, grad = 0, backward_fn = NoBackward, prev = [], op = OpNone\<rparr>,
              \<lparr>data = 8, grad = 0, backward_fn = PowBackward 0 3 1, prev = [0], op = OpPow 3\<rparr>]) \<and>
   (\<exists>h'. backward
        [\<lparr>data = 2, grad = 0, backward_fn = NoBackward, prev = [], op = OpNone\<rparr>,
         \<lparr>data = 8, grad = 0, backward_fn = PowBackward 0 3 1, prev = [0], op = OpPow 3\<rparr>] 1
      = Inr h' \<and> grad (h' ! 0) = 12)"
proof -
  have a: "leaf insertion_order [] 2 =
     (0, [\<lparr>data = 2, grad = 0, backward_fn = NoBackward, prev = [], op = OpNone\<rparr>])"
    by (simp add: leaf_eq)
  have b: "pow insertion_order
     [\<lparr>data = 2, grad = 0, backward_fn = NoBackward, prev = [], op = OpNone\<rparr>] 0 (Num 3) =
     (Inr 1, [\<lparr>data = 2, grad = 0, backward_fn = NoBackward, prev = [], op = OpNone\<rparr>,
              \<lparr>data = 8, grad = 0, backward_fn = PowBackward 0 3 1, prev = [0], op = OpPow 3\<rparr>])"
    by (simp add: pow_Num_eq py_pow_def)
  from power_rule [OF a b] a b show ?thesis
    by simp
qed

text \<open>
  C8. The two sides of \<open>relu\<close>: after \<open>x = leaf(-5.0)\<close>, \<open>y = relu(x)\<close> and
  \<open>backward(y)\<close> the value of \<open>y\<close> is 0 and the gradient of \<open>x\<close> is 0; with
  \<open>x = leaf(5.0)\<close> they are 5 and 1.
\<close>

theorem relu_boundary:
  "(leaf ho h (- 5) = (x, h1) \<and> relu ho h1 x = (y, h2) \<longrightarrow>
      (\<exists>h'. backward h2 y = Inr h' \<and> data (h2 ! y) = 0 \<and> grad (h' ! x) = 0)) \<and>
   (leaf ho h 5 = (x, h1) \<and> relu ho h1 x = (y, h2) \<longrightarrow>
      (\<exists>h'. backward h2 y = Inr h' \<and> data (h2 ! y) = 5 \<and> grad (h' ! x) = 1))"
  using relu_then_backward [of ho h "- 5" x h1 y h2] relu_then_backward [of ho h 5 x h1 y h2]
  by auto

text \<open>
  C8, at concrete inputs: both programs in the empty store.
\<close>

theorem relu_boundary_witness:
  "leaf insertion_order [] (- 5) =
     (0, [\<lparr>data = - 5, grad = 0, backward_fn = NoBackward, prev = [], op = OpNone\<rparr>]) \<and>
   relu insertion_order
     [\<lparr>data = - 5, grad = 0, backward_fn = NoBackward, prev = [], op = OpNone\<rparr>] 0 =
     (1, [\<lparr>data = - 5, grad = 0, backward_fn = NoBackward, prev = [], op = OpNone\<rparr>,
          \<lparr>data = 0, grad = 0, backward_fn = ReluBackward 0 1, prev = [0], op = OpReLU\<rparr>]) \<and>
   (\<exists>h'. backward
        [\<lparr>data = - 5, grad = 0, backward_fn = NoBackward, prev = [], op = OpNone\<rparr>,
         \<lparr>data = 0, grad = 0, backward_fn = ReluBackward 0 1, prev = [0], op = OpReLU\<rparr>] 1
      = Inr h' \<and> grad (h' ! 0) = 0) \<and>
   leaf insertion_order [] 5 =
     (0, [\<lparr>data = 5, grad = 0, backward_fn = NoBackward, prev = [], op = OpNone\<rparr>]) \<and>
   relu insertion_order
     [\<lparr>data = 5, grad = 0, backward_fn = NoBackward, prev = [], op = OpNone\<rparr>] 0 =
     (1, [\<lparr>data = 5, grad = 0, backward_fn = NoBackward, prev = [], op = OpNone\<rparr>,
          \<lparr>data = 5, grad = 0, backward_fn = ReluBackward 0 1, prev = [0], op = OpReLU\<rparr>]) \<and>
   (\<exists>h'. backward
        [\<lparr>data = 5, grad = 0, backward_fn = NoBackward, prev = [], op = OpNone\<rparr>,
         \<lparr>data = 5, grad = 0, backward_fn = ReluBackward 0 1, prev = [0], op = OpReLU\<rparr>] 1
      = Inr h' \<and> grad (h' ! 0) = 1)"
proof -
  let ?n = "[\<lparr>data = - 5, grad = 0, backward_fn = NoBackward, prev = [], op = OpNone\<rparr>]"
  let ?n2 = "[\<lparr>data = - 5, grad = 0, backward_fn = NoBackward, prev = [], op = OpNone\<rparr>,
          \<lparr>data = 0, grad = 0, backward_fn = ReluBackward 0 1, prev = [0], op = OpReLU\<rparr>]"
  let ?p = "[\<lparr>data = 5, grad = 0, backward_fn = NoBackward, prev = [], op = OpNone\<rparr>]"
  let ?p2 = "[\<lparr>data = 5, grad = 0, backward_fn = NoBackward, prev = [], op = OpNone\<rparr>,
          \<lparr>data = 5, grad = 0, backward_fn = ReluBackward 0 1, prev = [0], op = OpReLU\<rparr>]"
  have a: "leaf insertion_order [] (- 5) = (0, ?n)" by (simp add: leaf_eq)
  have b: "relu insertion_order ?n 0 = (1, ?n2)" by (simp add: relu_eq)
  have c: "leaf insertion_order [] 5 = (0, ?p)" by (simp add: leaf_eq)
  have d: "relu insertion_order ?p 0 = (1, ?p2)" by (simp add: relu_eq)
  from relu_boundary [of insertion_order "[]" 0 ?n 1 ?n2] a b
  have 1: "\<exists>h'. backward ?n2 1 = Inr h' \<and> grad (h' ! 0) = 0"
    by auto
  from relu_boundary [of insertion_order "[]" 0 ?p 1 ?p2] c d
  have 2: "\<exists>h'. backward ?p2 1 = Inr h' \<and> grad (h' ! 0) = 1"
    by auto
  from a b c d 1 2 show ?thesis
    by (intro conjI)
qed

text \<open>
  C9. The derived operations are the compositions of the primitives that the
  specification gives, on objects: \<open>__neg__\<close> is \<open>mul(a, leaf(-1))\<close>, \<open>__sub__\<close>
  is \<open>add(a, negate(b))\<close> and \<open>__truediv__\<close> is \<open>mul(a, pow(b, -1))\<close>, with the same
  result and the same store. The objects they create carry the labels of leaves and of
  \<open>add\<close>, \<open>mul\<close> and \<open>pow\<close> only.
\<close>

theorem derived_operations:
  "neg ho h a = spec_negate ho h a \<and>
   sub ho h a (Ref b) = spec_sub ho h a b \<and>
   truediv ho h a (Ref b) = spec_div ho h a b \<and>
   map op (drop (length h) (snd (neg ho h a))) = [OpNone, OpMul] \<and>
   map op (drop (length h) (snd (sub ho h a (Ref b)))) = [OpNone, OpMul, OpAdd] \<and>
   map op (drop (length h) (snd (truediv ho h a (Ref b)))) =
     (case fst (truediv ho h a (Ref b)) of Inl e \<Rightarrow> [] | Inr out \<Rightarrow> [OpPow (- 1), OpMul])"
proof -
  have neg: "neg ho h a = spec_negate ho h a" for h a
    by (simp add: neg_def spec_negate_def mul_Num_eq)
  have sub: "sub ho h a (Ref b) = spec_sub ho h a b"
    by (simp add: sub_def spec_sub_def neg_operand_def neg split: prod.splits)
  have div: "truediv ho h a (Ref b) = spec_div ho h a b"
    by (simp add: truediv_def spec_div_def inv_operand_def split: prod.splits sum.splits)
  have l1: "map op (drop (length h) (snd (neg ho h a))) = [OpNone, OpMul]"
    by (simp add: neg_def mul_Num_eq leaf_eq mul_Ref_eq)
  have l2: "map op (drop (length h) (snd (sub ho h a (Ref b)))) = [OpNone, OpMul, OpAdd]"
    by (simp add: sub_def neg_operand_def neg_def mul_Num_eq leaf_eq mul_Ref_eq add_Ref_eq)
  have l3: "map op (drop (length h) (snd (truediv ho h a (Ref b)))) =
     (case fst (truediv ho h a (Ref b)) of Inl e \<Rightarrow> [] | Inr out \<Rightarrow> [OpPow (- 1), OpMul])"
    by (simp add: truediv_def inv_operand_def pow_Num_eq mul_Ref_eq split: sum.splits)
  from neg sub div l1 l2 l3 show ?thesis
    by simp
qed




end
